theory Spec2Isabelle
  imports Main "HOL-Library.AList" "HOL-Library.Sublist"
begin

section \<open>Data model of lib/automata/regex.ts\<close>

text \<open>
  State ids are the numbers handed out by \<open>newState\<close>, modelled as \<open>nat\<close>.
  A transition label is \<open>string | null\<close> in the source: \<open>None\<close> is the epsilon
  marker \<open>null\<close>, \<open>Some s\<close> a string label (a one-character string when the
  transition comes from \<open>postfixToNFA\<close>).  Strings are \<open>char list\<close>; one \<open>char\<close>
  stands for one character of the source string.
\<close>

record Transition =
  t_from :: nat
  t_to :: nat
  symbol :: "string option"

record NFA =
  start :: nat
  accept :: nat
  states :: "nat list"
  transitions :: "Transition list"

record DTransition =
  d_from :: nat
  d_to :: nat
  d_symbol :: string

record DFA =
  d_start :: nat
  acceptStates :: "nat list"
  d_states :: "nat list"
  d_transitions :: "DTransition list"

text \<open>
  The two ways \<open>postfixToNFA\<close> throws: a \<open>TypeError\<close> when a property of the
  \<open>undefined\<close> returned by \<open>pop\<close> on an empty stack is read, and the explicit
  \<open>new Error(...)\<close> of the final stack check.
\<close>

datatype error = TypeError | Error string

subsection \<open>The global counter\<close>

text \<open>
  \<open>nextStateId\<close> is module state; every function that touches it takes the counter
  and returns the new one.
\<close>

definition newState :: "nat \<Rightarrow> nat \<times> nat" where
  "newState nextStateId = (nextStateId, nextStateId + 1)"

definition resetIds :: "nat \<Rightarrow> nat" where
  "resetIds nextStateId = 0"

subsection \<open>JavaScript sets of numbers\<close>

text \<open>
  A \<open>Set\<close> iterates in insertion order, so it is a list without repetitions in
  insertion order: \<open>add\<close> appends an absent element, \<open>has\<close> is membership and
  \<open>new Set(xs)\<close> adds the elements of \<open>xs\<close> one after the other.
\<close>

definition Set_add :: "'a list \<Rightarrow> 'a \<Rightarrow> 'a list" where
  "Set_add s x = (if x \<in> set s then s else s @ [x])"

definition new_Set :: "'a list \<Rightarrow> 'a list" where
  "new_Set xs = foldl Set_add [] xs"

section \<open>Regex to postfix\<close>

definition isOperator :: "char \<Rightarrow> bool" where
  "isOperator c = (c = CHR ''|'' \<or> c = CHR ''*'' \<or> c = CHR ''.'')"

definition precedence :: "char \<Rightarrow> nat" where
  "precedence op =
     (if op = CHR ''*'' then 3
      else if op = CHR ''.'' then 2
      else if op = CHR ''|'' then 1
      else 0)"

text \<open>The loop over \<open>i\<close> of \<open>insertConcats\<close>; \<open>c\<close> is \<open>re[i]\<close> and \<open>d\<close> is \<open>re[i + 1]\<close>.\<close>

fun insertConcats :: "string \<Rightarrow> string" where
  "insertConcats [] = []"
| "insertConcats (c # rest) =
     (if c = CHR ''('' \<or> c = CHR ''|'' then c # insertConcats rest
      else (case rest of
              [] \<Rightarrow> [c]
            | d # _ \<Rightarrow>
                if d = CHR ''*'' \<or> d = CHR ''|'' \<or> d = CHR '')'' then c # insertConcats rest
                else c # CHR ''.'' # insertConcats rest))"

text \<open>
  The operator stack \<open>ops\<close> has its top at the head of the list; \<open>out\<close> grows at
  its end.  \<open>popToParen\<close> is the \<open>while\<close> of the \<open>')'\<close> branch, \<open>popHigher\<close> the
  \<open>while\<close> of the operator branch.
\<close>

fun popToParen :: "string \<Rightarrow> string \<Rightarrow> string \<times> string" where
  "popToParen out [] = (out, [])"
| "popToParen out (p # ops) =
     (if p \<noteq> CHR ''('' then popToParen (out @ [p]) ops else (out, p # ops))"

fun popHigher :: "char \<Rightarrow> string \<Rightarrow> string \<Rightarrow> string \<times> string" where
  "popHigher c out [] = (out, [])"
| "popHigher c out (p # ops) =
     (if isOperator p \<and> precedence p \<ge> precedence c then popHigher c (out @ [p]) ops
      else (out, p # ops))"

text \<open>\<open>ops.pop()\<close> whose result is dropped: nothing happens on an empty stack.\<close>

fun pop_discard :: "'a list \<Rightarrow> 'a list" where
  "pop_discard [] = []"
| "pop_discard (p # ops) = ops"

fun toPostfix :: "string \<Rightarrow> string \<Rightarrow> string \<Rightarrow> string \<times> string" where
  "toPostfix [] out ops = (out, ops)"
| "toPostfix (c # cs) out ops =
     (if c = CHR ''('' then toPostfix cs out (c # ops)
      else if c = CHR '')'' then
        (case popToParen out ops of (out', ops') \<Rightarrow> toPostfix cs out' (pop_discard ops'))
      else if isOperator c then
        (case popHigher c out ops of (out', ops') \<Rightarrow> toPostfix cs out' (c # ops'))
      else toPostfix cs (out @ [c]) ops)"

text \<open>The final \<open>while (ops.length) out.push(ops.pop()!)\<close>.\<close>

fun flushOps :: "string \<Rightarrow> string \<Rightarrow> string" where
  "flushOps out [] = out"
| "flushOps out (p # ops) = flushOps (out @ [p]) ops"

definition regexToPostfix :: "string \<Rightarrow> string" where
  "regexToPostfix re =
     (let withConcats = insertConcats re in
      case toPostfix withConcats [] [] of (out, ops) \<Rightarrow> flushOps out ops)"

section \<open>Thompson construction\<close>

text \<open>
  The fragment stack has its top at the head.  Each branch of the loop body is one
  function; \<open>pop\<close> on an empty stack gives \<open>undefined\<close>, and the first property read
  from it throws a \<open>TypeError\<close>.  In the \<open>'*'\<close> and \<open>'|'\<close> branches both calls of
  \<open>newState\<close> run before that read, in the \<open>'.'\<close> branch none does; the counter
  returned with the error says so.
\<close>

definition starFragment :: "NFA \<Rightarrow> nat \<Rightarrow> nat \<Rightarrow> NFA" where
  "starFragment n s f =
     \<lparr>start = s, accept = f, states = [s, f] @ states n,
      transitions =
        [\<lparr>t_from = s, t_to = start n, symbol = None\<rparr>,
         \<lparr>t_from = s, t_to = f, symbol = None\<rparr>,
         \<lparr>t_from = accept n, t_to = start n, symbol = None\<rparr>,
         \<lparr>t_from = accept n, t_to = f, symbol = None\<rparr>] @ transitions n\<rparr>"

definition concatFragment :: "NFA \<Rightarrow> NFA \<Rightarrow> NFA" where
  "concatFragment n1 n2 =
     \<lparr>start = start n1, accept = accept n2, states = states n1 @ states n2,
      transitions = transitions n1 @ transitions n2 @
        [\<lparr>t_from = accept n1, t_to = start n2, symbol = None\<rparr>]\<rparr>"

definition unionFragment :: "NFA \<Rightarrow> NFA \<Rightarrow> nat \<Rightarrow> nat \<Rightarrow> NFA" where
  "unionFragment n1 n2 s f =
     \<lparr>start = s, accept = f, states = [s, f] @ states n1 @ states n2,
      transitions =
        [\<lparr>t_from = s, t_to = start n1, symbol = None\<rparr>,
         \<lparr>t_from = s, t_to = start n2, symbol = None\<rparr>,
         \<lparr>t_from = accept n1, t_to = f, symbol = None\<rparr>,
         \<lparr>t_from = accept n2, t_to = f, symbol = None\<rparr>] @ transitions n1 @ transitions n2\<rparr>"

definition symbolFragment :: "char \<Rightarrow> nat \<Rightarrow> nat \<Rightarrow> NFA" where
  "symbolFragment c s f =
     \<lparr>start = s, accept = f, states = [s, f],
      transitions = [\<lparr>t_from = s, t_to = f, symbol = Some [c]\<rparr>]\<rparr>"

fun processToken :: "char \<Rightarrow> NFA list \<Rightarrow> nat \<Rightarrow> (error + NFA list) \<times> nat" where
  "processToken c stack k =
     (if c = CHR ''*'' then
        (case stack of
           [] \<Rightarrow> (case newState k of (s, k1) \<Rightarrow> case newState k1 of (f, k2) \<Rightarrow>
                   (Inl TypeError, k2))
         | n # rest \<Rightarrow> (case newState k of (s, k1) \<Rightarrow> case newState k1 of (f, k2) \<Rightarrow>
                   (Inr (starFragment n s f # rest), k2)))
      else if c = CHR ''.'' then
        (case stack of
           n2 # n1 # rest \<Rightarrow> (Inr (concatFragment n1 n2 # rest), k)
         | _ \<Rightarrow> (Inl TypeError, k))
      else if c = CHR ''|'' then
        (case stack of
           n2 # n1 # rest \<Rightarrow> (case newState k of (s, k1) \<Rightarrow> case newState k1 of (f, k2) \<Rightarrow>
                   (Inr (unionFragment n1 n2 s f # rest), k2))
         | _ \<Rightarrow> (case newState k of (s, k1) \<Rightarrow> case newState k1 of (f, k2) \<Rightarrow>
                   (Inl TypeError, k2)))
      else
        (case newState k of (s, k1) \<Rightarrow> case newState k1 of (f, k2) \<Rightarrow>
           (Inr (symbolFragment c s f # stack), k2)))"

text \<open>The \<open>for (const c of postfix)\<close> loop: it stops at the first throw.\<close>

fun processTokens :: "string \<Rightarrow> NFA list \<Rightarrow> nat \<Rightarrow> (error + NFA list) \<times> nat" where
  "processTokens [] stack k = (Inr stack, k)"
| "processTokens (c # cs) stack k =
     (case processToken c stack k of
        (Inl e, k') \<Rightarrow> (Inl e, k')
      | (Inr stack', k') \<Rightarrow> processTokens cs stack' k')"

text \<open>
  After the loop: the length check, then \<open>stack[0]\<close> (the head of a stack of length
  one) with its \<open>states\<close> passed through a \<open>Set\<close>.
\<close>

definition postfixToNFA :: "string \<Rightarrow> nat \<Rightarrow> (error + NFA) \<times> nat" where
  "postfixToNFA postfix k =
     (case processTokens postfix [] k of
        (Inl e, k') \<Rightarrow> (Inl e, k')
      | (Inr stack, k') \<Rightarrow>
          if length stack \<noteq> 1 then (Inl (Error ''Invalid regex/postfix; stack length != 1''), k')
          else (let nfa = hd stack in (Inr (nfa\<lparr>states := new_Set (states nfa)\<rparr>), k')))"

section \<open>Invariants of the fragment stack\<close>

text \<open>
  A fragment is well formed when its start and accept ids and both ends of every
  transition are among its states, no transition enters the start id and none leaves
  the accept id.  A stack is well formed for counter value \<open>k\<close> when its fragments
  are well formed, use ids below \<open>k\<close> only and share no id.
\<close>

definition frag_ok :: "NFA \<Rightarrow> bool" where
  "frag_ok n \<longleftrightarrow>
     start n \<in> set (states n) \<and> accept n \<in> set (states n) \<and>
     (\<forall>t \<in> set (transitions n).
        t_from t \<in> set (states n) \<and> t_to t \<in> set (states n) \<and>
        t_to t \<noteq> start n \<and> t_from t \<noteq> accept n)"

definition stack_ok :: "nat \<Rightarrow> NFA list \<Rightarrow> bool" where
  "stack_ok k stack \<longleftrightarrow>
     distinct (concat (map states stack)) \<and>
     (\<forall>n \<in> set stack. frag_ok n \<and> (\<forall>i \<in> set (states n). i < k))"

section \<open>Relabelling of state ids\<close>

text \<open>
  The notion of the reproducibility property: \<open>relabel h\<close> renames every state id
  of an automaton by \<open>h\<close> and keeps its shape.
\<close>

definition relabelTransition :: "(nat \<Rightarrow> nat) \<Rightarrow> Transition \<Rightarrow> Transition" where
  "relabelTransition h t = \<lparr>t_from = h (t_from t), t_to = h (t_to t), symbol = symbol t\<rparr>"

definition relabel :: "(nat \<Rightarrow> nat) \<Rightarrow> NFA \<Rightarrow> NFA" where
  "relabel h n =
     \<lparr>start = h (start n), accept = h (accept n), states = map h (states n),
      transitions = map (relabelTransition h) (transitions n)\<rparr>"

section \<open>Numbers as text\<close>

text \<open>
  \<open>numToString\<close> is the decimal text JavaScript gives a non-negative integer, in
  \<open>join\<close> and in template literals (below 1e21, where JavaScript switches to
  exponent notation); \<open>Number\<close> reads such a text back.  \<open>Number('')\<close> is 0 as in
  JavaScript; on any other string that is not a row of decimal digits the model returns
  \<open>None\<close> (JavaScript gives \<open>NaN\<close> or reads another notation), which no key built by
  \<open>keyOf\<close> contains.
\<close>

definition digitChar :: "nat \<Rightarrow> char" where
  "digitChar d = ''0123456789'' ! d"

fun numToString :: "nat \<Rightarrow> string" where
  "numToString n =
     (if n < 10 then [digitChar n] else numToString (n div 10) @ [digitChar (n mod 10)])"

declare numToString.simps [simp del]

definition isDigit :: "char \<Rightarrow> bool" where
  "isDigit c = (c \<in> set ''0123456789'')"

definition digitVal :: "char \<Rightarrow> nat" where
  "digitVal c = of_char c - 48"

definition Number :: "string \<Rightarrow> nat option" where
  "Number s =
     (if s = [] then Some 0
      else if list_all isDigit s then Some (foldl (\<lambda>n c. 10 * n + digitVal c) 0 s)
      else None)"

text \<open>
  \<open>Array.prototype.join\<close> on strings and \<open>String.prototype.split\<close> with a
  one-character separator.
\<close>

fun join :: "string \<Rightarrow> string list \<Rightarrow> string" where
  "join sep [] = []"
| "join sep [x] = x"
| "join sep (x # y # ys) = x @ sep @ join sep (y # ys)"

fun splitFrom :: "char \<Rightarrow> string \<Rightarrow> string \<Rightarrow> string list" where
  "splitFrom sep cur [] = [cur]"
| "splitFrom sep cur (c # cs) =
     (if c = sep then cur # splitFrom sep [] cs else splitFrom sep (cur @ [c]) cs)"

definition split :: "char \<Rightarrow> string \<Rightarrow> string list" where
  "split sep s = splitFrom sep [] s"

section \<open>Subset construction\<close>

subsection \<open>Epsilon closure and move\<close>

text \<open>
  \<open>closureScan\<close> is the inner \<open>for (const t of nfa.transitions)\<close> of
  \<open>epsilonClosure\<close> for the popped state \<open>s\<close>; \<open>closureLoop\<close> is the
  \<open>while (stack.length)\<close>.  The work stack has its top at the head, so
  \<open>Array.from(stateSet)\<close>, popped from its end, starts as the reversed set.
\<close>

fun closureScan :: "nat \<Rightarrow> Transition list \<Rightarrow> nat list \<Rightarrow> nat list \<Rightarrow> nat list \<times> nat list" where
  "closureScan s [] stack res = (stack, res)"
| "closureScan s (t # ts) stack res =
     (if t_from t = s \<and> symbol t = None \<and> t_to t \<notin> set res
      then closureScan s ts (t_to t # stack) (Set_add res (t_to t))
      else closureScan s ts stack res)"

text \<open>
  Every pass over the transitions keeps the sum of the number of transition targets
  not yet in \<open>res\<close> and the stack height; popping one state therefore decreases it,
  which is why the loop ends.
\<close>

lemma closureScan_measure:
  "closureScan s ts stack res = (stack', res') \<Longrightarrow> set ts \<subseteq> set all \<Longrightarrow>
   card (t_to ` set all - set res') + length stack' = card (t_to ` set all - set res) + length stack"
proof (induction ts arbitrary: stack res)
  case Nil
  then show ?case by simp
next
  case (Cons t ts)
  show ?case
  proof (cases "t_from t = s \<and> symbol t = None \<and> t_to t \<notin> set res")
    case True
    with Cons.prems have run: "closureScan s ts (t_to t # stack) (res @ [t_to t]) = (stack', res')"
      by (simp add: Set_add_def)
    have "t_to t \<in> t_to ` set all - set res" using True Cons.prems(2) by auto
    then have "Suc (card ((t_to ` set all - set res) - {t_to t})) = card (t_to ` set all - set res)"
      by (intro card_Suc_Diff1) simp_all
    moreover have "t_to ` set all - set (res @ [t_to t]) = (t_to ` set all - set res) - {t_to t}"
      by auto
    ultimately have "card (t_to ` set all - set (res @ [t_to t])) + 1 = card (t_to ` set all - set res)"
      by simp
    moreover have "card (t_to ` set all - set res') + length stack' =
        card (t_to ` set all - set (res @ [t_to t])) + length (t_to t # stack)"
      using Cons.IH[OF run] Cons.prems(2) by simp
    ultimately show ?thesis by simp
  next
    case False
    with Cons.prems have "closureScan s ts stack res = (stack', res')" by auto
    then show ?thesis using Cons.IH Cons.prems(2) by simp
  qed
qed

function closureLoop :: "Transition list \<Rightarrow> nat list \<Rightarrow> nat list \<Rightarrow> nat list" where
  "closureLoop ts [] res = res"
| "closureLoop ts (s # stack) res =
     (case closureScan s ts stack res of (stack', res') \<Rightarrow> closureLoop ts stack' res')"
  by pat_completeness auto
termination
proof (relation "measure (\<lambda>(ts, stack, res). card (t_to ` set ts - set res) + length stack)", goal_cases)
  case 1
  show ?case by simp
next
  case (2 ts s stack res x y)
  then have run: "closureScan s ts stack res = (x, y)" by simp
  have "card (t_to ` set ts - set y) + length x < card (t_to ` set ts - set res) + length (s # stack)"
    using closureScan_measure[OF run, of ts] by simp
  then show ?case unfolding run by simp
qed

definition epsilonClosure :: "NFA \<Rightarrow> nat list \<Rightarrow> nat list" where
  "epsilonClosure nfa stateSet = closureLoop (transitions nfa) (rev stateSet) (new_Set stateSet)"

text \<open>
  \<open>move\<close>: the outer loop over the states of the set, the inner loop over the
  transitions.
\<close>

fun moveScan :: "nat \<Rightarrow> string \<Rightarrow> Transition list \<Rightarrow> nat list \<Rightarrow> nat list" where
  "moveScan s lab [] res = res"
| "moveScan s lab (t # ts) res =
     (if t_from t = s \<and> symbol t = Some lab then moveScan s lab ts (Set_add res (t_to t))
      else moveScan s lab ts res)"

fun moveLoop :: "Transition list \<Rightarrow> nat list \<Rightarrow> string \<Rightarrow> nat list \<Rightarrow> nat list" where
  "moveLoop ts [] lab res = res"
| "moveLoop ts (s # stateSet) lab res = moveLoop ts stateSet lab (moveScan s lab ts res)"

definition move :: "NFA \<Rightarrow> nat list \<Rightarrow> string \<Rightarrow> nat list" where
  "move nfa stateSet lab = moveLoop (transitions nfa) stateSet lab []"

subsection \<open>The work list of subsets\<close>

text \<open>
  The alphabet is a \<open>Set\<close> of the labels that are not \<open>null\<close>, in the order
  of their first transition.
\<close>

fun collectAlphabet :: "Transition list \<Rightarrow> string list \<Rightarrow> string list" where
  "collectAlphabet [] alphabet = alphabet"
| "collectAlphabet (t # ts) alphabet =
     (case symbol t of
        None \<Rightarrow> collectAlphabet ts alphabet
      | Some lab \<Rightarrow> collectAlphabet ts (Set_add alphabet lab))"

text \<open>
  \<open>keyOf\<close>: the ids sorted ascending and joined with commas.
\<close>

definition keyOf :: "nat list \<Rightarrow> string" where
  "keyOf s = join '','' (map numToString (sort s))"

text \<open>
  The three variables the \<open>while\<close> loop updates.  \<open>dfaStatesMap\<close> is a
  \<open>Map\<close>, kept as an association list in insertion order (\<open>AList.update\<close> replaces
  the value of a present key in place and appends an absent one, as \<open>Map.set\<close> does).
\<close>

record Build =
  dfaStatesMap :: "(string \<times> nat) list"
  dfaStatesList :: "nat list list"
  b_transitions :: "DTransition list"

text \<open>
  \<open>symbolStep\<close> is the body of \<open>for (const sym of alphabet)\<close>, \<open>forSymbols\<close> that
  loop, \<open>whileIdx\<close> the \<open>while (idx < dfaStatesList.length)\<close>.  The loop variable
  \<open>sym\<close> is written \<open>lab\<close>, as \<open>sym\<close> is a constant of HOL.  A
  \<open>dfaStatesMap.get(k)!\<close> that found no entry would store \<open>undefined\<close> as a state
  id; the model has no such id and returns \<open>None\<close> there.  The \<open>while\<close> loop is a
  partial function: \<open>None\<close> is also the value of a loop that never ends.  That
  neither happens is proved below (\<open>whileIdx_total\<close>).
\<close>

definition symbolStep :: "NFA \<Rightarrow> nat list \<Rightarrow> nat \<Rightarrow> string \<Rightarrow> Build \<Rightarrow> Build option" where
  "symbolStep nfa currentSet fromId lab b =
     (let moved = move nfa currentSet lab in
      if length moved = 0 then Some b
      else
        let closure = epsilonClosure nfa moved;
            k = keyOf closure;
            b1 = (if map_of (dfaStatesMap b) k = None
                  then b\<lparr>dfaStatesMap := AList.update k (length (dfaStatesList b)) (dfaStatesMap b),
                         dfaStatesList := dfaStatesList b @ [closure]\<rparr>
                  else b)
        in case map_of (dfaStatesMap b1) k of
             None \<Rightarrow> None
           | Some toId \<Rightarrow>
               Some (b1\<lparr>b_transitions := b_transitions b1 @
                        [\<lparr>d_from = fromId, d_to = toId, d_symbol = lab\<rparr>]\<rparr>))"

fun forSymbols :: "NFA \<Rightarrow> nat list \<Rightarrow> nat \<Rightarrow> string list \<Rightarrow> Build \<Rightarrow> Build option" where
  "forSymbols nfa currentSet fromId [] b = Some b"
| "forSymbols nfa currentSet fromId (lab # labs) b =
     (case symbolStep nfa currentSet fromId lab b of
        None \<Rightarrow> None
      | Some b' \<Rightarrow> forSymbols nfa currentSet fromId labs b')"

partial_function (option) whileIdx :: "NFA \<Rightarrow> string list \<Rightarrow> Build \<Rightarrow> nat \<Rightarrow> Build option" where
  "whileIdx nfa alphabet b idx =
     (if idx < length (dfaStatesList b) then
        (let currentSet = dfaStatesList b ! idx;
             currentKey = keyOf currentSet
         in case map_of (dfaStatesMap b) currentKey of
              None \<Rightarrow> None
            | Some fromId \<Rightarrow>
                (case forSymbols nfa currentSet fromId alphabet b of
                   None \<Rightarrow> None
                 | Some b' \<Rightarrow> whileIdx nfa alphabet b' (idx + 1)))
      else Some b)"

declare whileIdx.simps [code]

text \<open>
  The loop over \<open>dfaStatesMap.entries()\<close> that parses every key back into ids.
\<close>

fun collectAccept :: "nat \<Rightarrow> (string \<times> nat) list \<Rightarrow> nat list \<Rightarrow> nat list" where
  "collectAccept acc [] out = out"
| "collectAccept acc ((k, ident) # entries) out =
     (let parts = (if k = [] then [] else map Number (split CHR '','' k)) in
      if Some acc \<in> set parts then collectAccept acc entries (out @ [ident])
      else collectAccept acc entries out)"

definition nfaToDfa :: "NFA \<Rightarrow> DFA option" where
  "nfaToDfa nfa =
     (let alphabet = collectAlphabet (transitions nfa) [];
          startClosure = epsilonClosure nfa (new_Set [start nfa]);
          q0key = keyOf startClosure;
          b0 = \<lparr>dfaStatesMap = AList.update q0key 0 [], dfaStatesList = [startClosure],
                b_transitions = []\<rparr>
      in case whileIdx nfa alphabet b0 0 of
           None \<Rightarrow> None
         | Some b \<Rightarrow>
             Some \<lparr>d_start = 0,
                   acceptStates = collectAccept (accept nfa) (dfaStatesMap b) [],
                   d_states = [0..<length (dfaStatesList b)],
                   d_transitions = b_transitions b\<rparr>)"

section \<open>Running the automata\<close>

text \<open>
  The source has no function that runs an automaton on a string.  Acceptance by the
  DFA follows the data model: from the start id follow, for each character, the
  transition of the current state labelled with that character; a missing transition
  rejects; at the end the state must be in \<open>acceptStates\<close>.  Acceptance by the NFA is
  the direct simulation: start from the epsilon closure of the start id, apply
  \<open>move\<close> then \<open>epsilonClosure\<close> per character, and accept when the accept id is
  in the final set.  A string is run as the list of its one-character labels.
\<close>

definition dfaStep :: "DFA \<Rightarrow> nat \<Rightarrow> string \<Rightarrow> nat option" where
  "dfaStep d q a = map_option d_to (find (\<lambda>t. d_from t = q \<and> d_symbol t = a) (d_transitions d))"

fun dfaRun :: "DFA \<Rightarrow> nat \<Rightarrow> string list \<Rightarrow> nat option" where
  "dfaRun d q [] = Some q"
| "dfaRun d q (a # w) = (case dfaStep d q a of None \<Rightarrow> None | Some q' \<Rightarrow> dfaRun d q' w)"

definition dfaAccepts :: "DFA \<Rightarrow> string \<Rightarrow> bool" where
  "dfaAccepts d w =
     (case dfaRun d (d_start d) (map (\<lambda>c. [c]) w) of
        None \<Rightarrow> False
      | Some q \<Rightarrow> q \<in> set (acceptStates d))"

fun nfaRun :: "NFA \<Rightarrow> nat list \<Rightarrow> string list \<Rightarrow> nat list" where
  "nfaRun nfa S [] = S"
| "nfaRun nfa S (a # w) = nfaRun nfa (epsilonClosure nfa (move nfa S a)) w"

definition nfaAccepts :: "NFA \<Rightarrow> string \<Rightarrow> bool" where
  "nfaAccepts nfa w \<longleftrightarrow>
     accept nfa \<in> set (nfaRun nfa (epsilonClosure nfa (new_Set [start nfa])) (map (\<lambda>c. [c]) w))"

section \<open>DOT export\<close>










section \<open>Notions used in the proofs\<close>

text \<open>
  The epsilon edges and the edges labelled \<open>a\<close> of an NFA as relations, and the
  invariant of the work list of \<open>epsilonClosure\<close> for the start set \<open>S\<close>.
\<close>

definition epsEdges :: "NFA \<Rightarrow> (nat \<times> nat) set" where
  "epsEdges nfa = {(p, q). \<exists>t \<in> set (transitions nfa). t_from t = p \<and> t_to t = q \<and> symbol t = None}"

definition symEdges :: "NFA \<Rightarrow> string \<Rightarrow> (nat \<times> nat) set" where
  "symEdges nfa a = {(p, q). \<exists>t \<in> set (transitions nfa). t_from t = p \<and> t_to t = q \<and> symbol t = Some a}"

definition closure_inv :: "NFA \<Rightarrow> nat set \<Rightarrow> nat list \<Rightarrow> nat list \<Rightarrow> bool" where
  "closure_inv nfa S stack res \<longleftrightarrow>
     distinct res \<and> S \<subseteq> set res \<and> set stack \<subseteq> set res \<and>
     set res \<subseteq> (epsEdges nfa)\<^sup>* `` S \<and>
     (\<forall>p \<in> set res - set stack. epsEdges nfa `` {p} \<subseteq> set res)"

text \<open>
  \<open>keyParts\<close> is the expression \<open>parts\<close> of the accept-state loop.
\<close>

definition keyParts :: "string \<Rightarrow> nat option list" where
  "keyParts k = (if k = [] then [] else map Number (split CHR '','' k))"

text \<open>
  Invariants of the subset construction.  \<open>universe\<close> bounds every subset;
  \<open>tr_ok\<close> says a DFA transition leads to the subset that \<open>move\<close> and
  \<open>epsilonClosure\<close> give; \<open>build_base\<close> ties the map to the list of subsets;
  \<open>build_inv\<close> adds, for the set \<open>C\<close> of (state, label) pairs already handled, that
  the transitions are exactly those of the pairs in \<open>C\<close> with a non-empty move.
  \<open>dfa_of\<close> is what the finished DFA satisfies for the list \<open>L\<close> of subsets.
\<close>

definition universe :: "NFA \<Rightarrow> nat set" where
  "universe nfa = insert (start nfa) (t_to ` set (transitions nfa))"

definition tr_ok :: "NFA \<Rightarrow> nat list list \<Rightarrow> DTransition \<Rightarrow> bool" where
  "tr_ok nfa L t \<longleftrightarrow>
     d_from t < length L \<and> d_to t < length L \<and>
     move nfa (L ! d_from t) (d_symbol t) \<noteq> [] \<and>
     set (L ! d_to t) = set (epsilonClosure nfa (move nfa (L ! d_from t) (d_symbol t)))"

definition build_base :: "NFA \<Rightarrow> Build \<Rightarrow> bool" where
  "build_base nfa b \<longleftrightarrow>
     dfaStatesMap b = zip (map keyOf (dfaStatesList b)) [0..<length (dfaStatesList b)] \<and>
     distinct (map keyOf (dfaStatesList b)) \<and>
     (\<forall>S \<in> set (dfaStatesList b). distinct S \<and> set S \<subseteq> universe nfa)"

definition build_inv :: "NFA \<Rightarrow> Build \<Rightarrow> (nat \<times> string) set \<Rightarrow> bool" where
  "build_inv nfa b C \<longleftrightarrow>
     build_base nfa b \<and>
     (\<forall>t \<in> set (b_transitions b). (d_from t, d_symbol t) \<in> C \<and> tr_ok nfa (dfaStatesList b) t) \<and>
     distinct (map (\<lambda>t. (d_from t, d_symbol t)) (b_transitions b)) \<and>
     (\<forall>(i, a) \<in> C. i < length (dfaStatesList b) \<and>
        (move nfa (dfaStatesList b ! i) a \<noteq> [] \<longrightarrow>
           (\<exists>t \<in> set (b_transitions b). d_from t = i \<and> d_symbol t = a)))"

definition dfa_of :: "NFA \<Rightarrow> nat list list \<Rightarrow> DFA \<Rightarrow> bool" where
  "dfa_of nfa L d \<longleftrightarrow>
     L \<noteq> [] \<and> set (L ! 0) = set (epsilonClosure nfa (new_Set [start nfa])) \<and>
     d_start d = 0 \<and> d_states d = [0..<length L] \<and>
     set (acceptStates d) = {i. i < length L \<and> accept nfa \<in> set (L ! i)} \<and>
     (\<forall>t \<in> set (d_transitions d). tr_ok nfa L t) \<and>
     distinct (map (\<lambda>t. (d_from t, d_symbol t)) (d_transitions d)) \<and>
     (\<forall>i < length L. \<forall>a. move nfa (L ! i) a \<noteq> [] \<longrightarrow>
        (\<exists>t \<in> set (d_transitions d). d_from t = i \<and> d_symbol t = a))"

text \<open>
  The automata of the pattern \<open>(a|b)*abb\<close>, built with the counter at 0.
\<close>

definition abbNFA :: NFA where
  "abbNFA =
     \<lparr>start = 6, accept = 13, states = [6, 7, 4, 5, 0, 1, 2, 3, 8, 9, 10, 11, 12, 13],
      transitions =
        [\<lparr>t_from = 6, t_to = 4, symbol = None\<rparr>,
         \<lparr>t_from = 6, t_to = 7, symbol = None\<rparr>,
         \<lparr>t_from = 5, t_to = 4, symbol = None\<rparr>,
         \<lparr>t_from = 5, t_to = 7, symbol = None\<rparr>,
         \<lparr>t_from = 4, t_to = 0, symbol = None\<rparr>,
         \<lparr>t_from = 4, t_to = 2, symbol = None\<rparr>,
         \<lparr>t_from = 1, t_to = 5, symbol = None\<rparr>,
         \<lparr>t_from = 3, t_to = 5, symbol = None\<rparr>,
         \<lparr>t_from = 0, t_to = 1, symbol = Some ''a''\<rparr>,
         \<lparr>t_from = 2, t_to = 3, symbol = Some ''b''\<rparr>,
         \<lparr>t_from = 8, t_to = 9, symbol = Some ''a''\<rparr>,
         \<lparr>t_from = 7, t_to = 8, symbol = None\<rparr>,
         \<lparr>t_from = 10, t_to = 11, symbol = Some ''b''\<rparr>,
         \<lparr>t_from = 9, t_to = 10, symbol = None\<rparr>,
         \<lparr>t_from = 12, t_to = 13, symbol = Some ''b''\<rparr>,
         \<lparr>t_from = 11, t_to = 12, symbol = None\<rparr>]\<rparr>"

definition abbDFA :: DFA where
  "abbDFA =
     \<lparr>d_start = 0, acceptStates = [4], d_states = [0, 1, 2, 3, 4],
      d_transitions =
        [\<lparr>d_from = 0, d_to = 1, d_symbol = ''a''\<rparr>,
         \<lparr>d_from = 0, d_to = 2, d_symbol = ''b''\<rparr>,
         \<lparr>d_from = 1, d_to = 1, d_symbol = ''a''\<rparr>,
         \<lparr>d_from = 1, d_to = 3, d_symbol = ''b''\<rparr>,
         \<lparr>d_from = 2, d_to = 1, d_symbol = ''a''\<rparr>,
         \<lparr>d_from = 2, d_to = 2, d_symbol = ''b''\<rparr>,
         \<lparr>d_from = 3, d_to = 1, d_symbol = ''a''\<rparr>,
         \<lparr>d_from = 3, d_to = 4, d_symbol = ''b''\<rparr>,
         \<lparr>d_from = 4, d_to = 1, d_symbol = ''a''\<rparr>,
         \<lparr>d_from = 4, d_to = 2, d_symbol = ''b''\<rparr>]\<rparr>"



section \<open>Postfix conversion: the documented examples\<close>

text \<open>
  C4: \<open>regexToPostfix\<close> returns \<open>ab|\<close> on \<open>a|b\<close>, \<open>ab*.\<close> on \<open>ab*\<close> and
  \<open>ab|*a.b.b.\<close> on \<open>(a|b)*abb\<close>.
\<close>

theorem regexToPostfix_examples:
  "regexToPostfix ''a|b'' = ''ab|'' \<and>
   regexToPostfix ''ab*'' = ''ab*.'' \<and>
   regexToPostfix ''(a|b)*abb'' = ''ab|*a.b.b.''"
  by (simp add: regexToPostfix_def isOperator_def precedence_def)

section \<open>Thompson construction: invariants\<close>

lemma frag_ok_symbol: "frag_ok (symbolFragment c k (Suc k))"
  by (simp add: frag_ok_def symbolFragment_def)

lemma frag_ok_star:
  assumes "frag_ok n" "\<forall>i \<in> set (states n). i < k"
  shows "frag_ok (starFragment n k (Suc k))"
proof -
  have a: "k \<notin> set (states n)" "Suc k \<notin> set (states n)" using assms(2) by auto
  show ?thesis using assms(1) a unfolding frag_ok_def starFragment_def
    by auto
qed

lemma frag_ok_concat:
  assumes "frag_ok n1" "frag_ok n2" "set (states n1) \<inter> set (states n2) = {}"
  shows "frag_ok (concatFragment n1 n2)"
proof -
  have a: "\<And>i. i \<in> set (states n1) \<Longrightarrow> i \<notin> set (states n2)" using assms(3) by auto
  have s1: "start n1 \<in> set (states n1)" and a1: "accept n1 \<in> set (states n1)"
    and s2: "start n2 \<in> set (states n2)" and a2: "accept n2 \<in> set (states n2)"
    using assms(1,2) by (simp_all add: frag_ok_def)
  have t1: "t_from t \<in> set (states n1) \<and> t_to t \<in> set (states n1) \<and>
            t_to t \<noteq> start n1 \<and> t_from t \<noteq> accept n2"
    if "t \<in> set (transitions n1)" for t
  proof -
    from that assms(1) have m: "t_from t \<in> set (states n1)" "t_to t \<in> set (states n1)"
      "t_to t \<noteq> start n1" by (simp_all add: frag_ok_def)
    from a[OF m(1)] a2 have "t_from t \<noteq> accept n2" by metis
    with m show ?thesis by simp
  qed
  have t2: "t_from t \<in> set (states n2) \<and> t_to t \<in> set (states n2) \<and>
            t_to t \<noteq> start n1 \<and> t_from t \<noteq> accept n2"
    if "t \<in> set (transitions n2)" for t
  proof -
    from that assms(2) have m: "t_from t \<in> set (states n2)" "t_to t \<in> set (states n2)"
      "t_from t \<noteq> accept n2" by (simp_all add: frag_ok_def)
    from a[OF s1] m(2) have "t_to t \<noteq> start n1" by metis
    with m show ?thesis by simp
  qed
  have ne: "start n2 \<noteq> start n1" "accept n1 \<noteq> accept n2"
    using a[OF s1] s2 a[OF a1] a2 by metis+
  show ?thesis
    unfolding frag_ok_def concatFragment_def
    using s1 a1 s2 a2 ne t1 t2 by auto
qed

lemma frag_ok_union:
  assumes "frag_ok n1" "frag_ok n2" "\<forall>i \<in> set (states n1). i < k" "\<forall>i \<in> set (states n2). i < k"
  shows "frag_ok (unionFragment n1 n2 k (Suc k))"
proof -
  have a: "k \<notin> set (states n1)" "Suc k \<notin> set (states n1)"
    "k \<notin> set (states n2)" "Suc k \<notin> set (states n2)" using assms(3,4) by auto
  show ?thesis using assms(1,2) a unfolding frag_ok_def unionFragment_def
    by auto
qed

lemma processToken_ok:
  assumes "processToken c stack k = (Inr stack', k')" "stack_ok k stack"
  shows "stack_ok k' stack'"
proof -
  have lt: "\<And>m i. m \<in> set stack \<Longrightarrow> i \<in> set (states m) \<Longrightarrow> i < k"
    using assms(2) by (auto simp: stack_ok_def)
  have fresh: "\<And>m. m \<in> set stack \<Longrightarrow> k \<notin> set (states m) \<and> Suc k \<notin> set (states m)"
    using lt by fastforce
  have lt2: "\<And>m i. m \<in> set stack \<Longrightarrow> i \<in> set (states m) \<Longrightarrow> i < Suc (Suc k)"
    using lt by fastforce
  consider (star) "c = CHR ''*''" | (dot) "c = CHR ''.''" | (bar) "c = CHR ''|''"
    | (lit) "c \<noteq> CHR ''*''" "c \<noteq> CHR ''.''" "c \<noteq> CHR ''|''" by blast
  then show ?thesis
  proof cases
    case star
    with assms(1) obtain n rest where st: "stack = n # rest"
      and out: "stack' = starFragment n k (Suc k) # rest" "k' = k + 2"
      by (auto simp: newState_def split: list.splits)
    from assms(2) st have "frag_ok (starFragment n k (Suc k))"
      by (intro frag_ok_star) (auto simp: stack_ok_def)
    moreover have "states (starFragment n k (Suc k)) = [k, Suc k] @ states n"
      by (simp add: starFragment_def)
    ultimately show ?thesis using assms(2) st out fresh lt2
      by (auto simp: stack_ok_def)
  next
    case dot
    with assms(1) obtain n2 n1 rest where st: "stack = n2 # n1 # rest"
      and out: "stack' = concatFragment n1 n2 # rest" "k' = k"
      by (auto simp: newState_def split: list.splits)
    from assms(2) st have "frag_ok (concatFragment n1 n2)"
      by (intro frag_ok_concat) (auto simp: stack_ok_def)
    moreover have "states (concatFragment n1 n2) = states n1 @ states n2"
      by (simp add: concatFragment_def)
    ultimately show ?thesis using assms(2) st out fresh lt2
      by (auto simp: stack_ok_def)
  next
    case bar
    with assms(1) obtain n2 n1 rest where st: "stack = n2 # n1 # rest"
      and out: "stack' = unionFragment n1 n2 k (Suc k) # rest" "k' = k + 2"
      by (auto simp: newState_def split: list.splits)
    from assms(2) st have "frag_ok (unionFragment n1 n2 k (Suc k))"
      by (intro frag_ok_union) (auto simp: stack_ok_def)
    moreover have "states (unionFragment n1 n2 k (Suc k)) = [k, Suc k] @ states n1 @ states n2"
      by (simp add: unionFragment_def)
    ultimately show ?thesis using assms(2) st out fresh lt2
      by (auto simp: stack_ok_def)
  next
    case lit
    with assms(1) have out: "stack' = symbolFragment c k (Suc k) # stack" "k' = k + 2"
      by (auto simp: newState_def)
    have "states (symbolFragment c k (Suc k)) = [k, Suc k]"
      by (simp add: symbolFragment_def)
    then show ?thesis using assms(2) out frag_ok_symbol[of c k] fresh lt2
      by (auto simp: stack_ok_def)
  qed
qed

lemma processTokens_ok:
  "processTokens cs stack k = (Inr stack', k') \<Longrightarrow> stack_ok k stack \<Longrightarrow> stack_ok k' stack'"
proof (induction cs arbitrary: stack k)
  case Nil
  then show ?case by simp
next
  case (Cons c cs)
  obtain r k1 where step: "processToken c stack k = (r, k1)" by (cases "processToken c stack k")
  show ?case
  proof (cases r)
    case (Inl e)
    with Cons.prems step show ?thesis by simp
  next
    case (Inr st1)
    with Cons.prems step have "processTokens cs st1 k1 = (Inr stack', k')" by simp
    moreover have "stack_ok k1 st1" using processToken_ok step Inr Cons.prems(2) by blast
    ultimately show ?thesis by (rule Cons.IH)
  qed
qed

lemma set_foldl_Set_add: "set (foldl Set_add acc xs) = set acc \<union> set xs"
  by (induction xs arbitrary: acc) (auto simp: Set_add_def)

lemma distinct_foldl_Set_add: "distinct acc \<Longrightarrow> distinct (foldl Set_add acc xs)"
  by (induction xs arbitrary: acc) (auto simp: Set_add_def)

lemma set_new_Set: "set (new_Set xs) = set xs"
  by (simp add: new_Set_def set_foldl_Set_add)

lemma distinct_new_Set: "distinct (new_Set xs)"
  by (simp add: new_Set_def distinct_foldl_Set_add)

lemma postfixToNFA_Inr:
  assumes "postfixToNFA postfix k = (Inr nfa, k')"
  shows "\<exists>n. processTokens postfix [] k = (Inr [n], k') \<and> nfa = n\<lparr>states := new_Set (states n)\<rparr>"
proof -
  obtain r k1 where run: "processTokens postfix [] k = (r, k1)"
    by (cases "processTokens postfix [] k")
  show ?thesis
  proof (cases r)
    case (Inl e)
    with assms run show ?thesis by (simp add: postfixToNFA_def)
  next
    case (Inr stack)
    with assms run have len: "length stack = 1"
      by (auto simp: postfixToNFA_def split: if_splits)
    then obtain n where "stack = [n]" by (cases stack) auto
    with assms run Inr show ?thesis by (simp add: postfixToNFA_def)
  qed
qed

lemma postfixToNFA_frag_ok:
  assumes "postfixToNFA postfix k = (Inr nfa, k')"
  shows "frag_ok nfa"
proof -
  from postfixToNFA_Inr[OF assms] obtain n where
    run: "processTokens postfix [] k = (Inr [n], k')" and nfa: "nfa = n\<lparr>states := new_Set (states n)\<rparr>"
    by blast
  have "stack_ok k' [n]" using processTokens_ok[OF run] by (simp add: stack_ok_def)
  then have "frag_ok n" by (simp add: stack_ok_def)
  then show ?thesis unfolding nfa frag_ok_def by (simp add: set_new_Set)
qed

text \<open>
  C8: whenever \<open>postfixToNFA\<close> returns an NFA, its \<open>states\<close> list has no
  duplicate id, and the start id, the accept id and both ends of every transition are
  members of \<open>states\<close>.
\<close>

theorem postfixToNFA_states_closed:
  assumes "postfixToNFA postfix k = (Inr nfa, k')"
  shows "distinct (states nfa) \<and> start nfa \<in> set (states nfa) \<and> accept nfa \<in> set (states nfa) \<and>
         (\<forall>t \<in> set (transitions nfa). t_from t \<in> set (states nfa) \<and> t_to t \<in> set (states nfa))"
proof -
  from postfixToNFA_Inr[OF assms] obtain n where nfa: "nfa = n\<lparr>states := new_Set (states n)\<rparr>"
    by blast
  have "distinct (states nfa)" unfolding nfa by (simp add: distinct_new_Set)
  with postfixToNFA_frag_ok[OF assms] show ?thesis by (simp add: frag_ok_def)
qed

lemma postfix_ab_bar:
  "postfixToNFA ''ab|'' 0 =
     (Inr \<lparr>start = 4, accept = 5, states = [4, 5, 0, 1, 2, 3],
           transitions =
             [\<lparr>t_from = 4, t_to = 0, symbol = None\<rparr>,
              \<lparr>t_from = 4, t_to = 2, symbol = None\<rparr>,
              \<lparr>t_from = 1, t_to = 5, symbol = None\<rparr>,
              \<lparr>t_from = 3, t_to = 5, symbol = None\<rparr>,
              \<lparr>t_from = 0, t_to = 1, symbol = Some ''a''\<rparr>,
              \<lparr>t_from = 2, t_to = 3, symbol = Some ''b''\<rparr>]\<rparr>, 6)"
  by (simp add: postfixToNFA_def newState_def unionFragment_def symbolFragment_def
      new_Set_def Set_add_def)

theorem postfixToNFA_states_closed_witness:
  "\<exists>nfa k'. postfixToNFA ''ab|'' 0 = (Inr nfa, k') \<and>
     distinct (states nfa) \<and> start nfa \<in> set (states nfa) \<and> accept nfa \<in> set (states nfa) \<and>
     (\<forall>t \<in> set (transitions nfa). t_from t \<in> set (states nfa) \<and> t_to t \<in> set (states nfa))"
  using postfixToNFA_states_closed[OF postfix_ab_bar] postfix_ab_bar by blast

text \<open>
  C10: in every NFA returned by \<open>postfixToNFA\<close> no transition leaves the accept
  state and no transition enters the start state.
\<close>

theorem postfixToNFA_start_accept_isolated:
  assumes "postfixToNFA postfix k = (Inr nfa, k')"
  shows "\<forall>t \<in> set (transitions nfa). t_from t \<noteq> accept nfa \<and> t_to t \<noteq> start nfa"
  using postfixToNFA_frag_ok[OF assms] by (simp add: frag_ok_def)

theorem postfixToNFA_start_accept_isolated_witness:
  "\<exists>nfa k'. postfixToNFA ''ab|'' 0 = (Inr nfa, k') \<and>
     (\<forall>t \<in> set (transitions nfa). t_from t \<noteq> accept nfa \<and> t_to t \<noteq> start nfa)"
  using postfixToNFA_start_accept_isolated[OF postfix_ab_bar] postfix_ab_bar by blast

section \<open>Thompson construction: tokens and failures\<close>

lemma processTokens_append:
  "processTokens (xs @ ys) stack k =
     (case processTokens xs stack k of
        (Inl e, k') \<Rightarrow> (Inl e, k')
      | (Inr stack', k') \<Rightarrow> processTokens ys stack' k')"
  by (induction xs arbitrary: stack k) (auto split: prod.splits sum.splits)

text \<open>
  C3 (as the code has it): on a \<open>*\<close> token \<open>postfixToNFA\<close> pops one fragment
  \<open>n\<close>, takes two fresh ids \<open>s\<close> and \<open>f\<close> from the counter and pushes the
  fragment with start \<open>s\<close>, accept \<open>f\<close>, the states \<open>s, f\<close> and those of \<open>n\<close>,
  and exactly the four epsilon edges \<open>s \<rightarrow> n.start\<close>, \<open>s \<rightarrow> f\<close>,
  \<open>n.accept \<rightarrow> n.start\<close> and \<open>n.accept \<rightarrow> f\<close> before the transitions of
  \<open>n\<close>.  The back edge goes to \<open>n.start\<close>, not to \<open>s\<close>.
\<close>

theorem star_token_fragment:
  assumes "processTokens postfix [] k0 = (Inr (n # rest), k)"
  shows "processTokens (postfix @ ''*'') [] k0 =
     (Inr (\<lparr>start = k, accept = k + 1, states = [k, k + 1] @ states n,
            transitions =
              [\<lparr>t_from = k, t_to = start n, symbol = None\<rparr>,
               \<lparr>t_from = k, t_to = k + 1, symbol = None\<rparr>,
               \<lparr>t_from = accept n, t_to = start n, symbol = None\<rparr>,
               \<lparr>t_from = accept n, t_to = k + 1, symbol = None\<rparr>] @ transitions n\<rparr> # rest),
      k + 2)"
  using assms by (simp add: processTokens_append newState_def starFragment_def)

lemma postfix_a_run:
  "processTokens ''a'' [] 0 =
     (Inr (\<lparr>start = 0, accept = 1, states = [0, 1],
            transitions = [\<lparr>t_from = 0, t_to = 1, symbol = Some ''a''\<rparr>]\<rparr> # []), 2)"
  by (simp add: newState_def symbolFragment_def)

theorem star_token_fragment_witness:
  "processTokens (''a'' @ ''*'') [] 0 =
     (Inr [\<lparr>start = 2, accept = 3, states = [2, 3, 0, 1],
            transitions =
              [\<lparr>t_from = 2, t_to = 0, symbol = None\<rparr>,
               \<lparr>t_from = 2, t_to = 3, symbol = None\<rparr>,
               \<lparr>t_from = 1, t_to = 0, symbol = None\<rparr>,
               \<lparr>t_from = 1, t_to = 3, symbol = None\<rparr>,
               \<lparr>t_from = 0, t_to = 1, symbol = Some ''a''\<rparr>]\<rparr>], 4)"
  using star_token_fragment[OF postfix_a_run] by simp

text \<open>
  The claim C3 as written asks for a back edge \<open>n.accept \<rightarrow> s\<close>.  For the postfix
  \<open>a*\<close> built from counter 0 the popped fragment has accept id 1 and the fresh start
  is 2: the edge from 1 to 2 is not among the transitions, the edge from 1 to 0 is.
\<close>

theorem star_back_edge_counterexample:
  "processTokens ''a*'' [] 0 =
     (Inr [\<lparr>start = 2, accept = 3, states = [2, 3, 0, 1],
            transitions =
              [\<lparr>t_from = 2, t_to = 0, symbol = None\<rparr>,
               \<lparr>t_from = 2, t_to = 3, symbol = None\<rparr>,
               \<lparr>t_from = 1, t_to = 0, symbol = None\<rparr>,
               \<lparr>t_from = 1, t_to = 3, symbol = None\<rparr>,
               \<lparr>t_from = 0, t_to = 1, symbol = Some ''a''\<rparr>]\<rparr>], 4) \<and>
   \<lparr>t_from = 1, t_to = 2, symbol = None\<rparr> \<notin> set
              [\<lparr>t_from = 2, t_to = 0, symbol = None\<rparr>,
               \<lparr>t_from = 2, t_to = 3, symbol = None\<rparr>,
               \<lparr>t_from = 1, t_to = 0, symbol = None\<rparr>,
               \<lparr>t_from = 1, t_to = 3, symbol = None\<rparr>,
               \<lparr>t_from = 0, t_to = 1, symbol = Some ''a''\<rparr>]"
  by (simp add: newState_def symbolFragment_def starFragment_def)

text \<open>
  C6: \<open>postfixToNFA\<close> throws whenever the loop over the tokens ends with a fragment
  stack whose length is not one; a throw inside the loop is passed on; and a returned
  NFA is always the single fragment left on the stack, with its states deduplicated.
\<close>

theorem postfixToNFA_throws_unless_one:
  "(\<forall>stack k'. processTokens postfix [] k = (Inr stack, k') \<and> length stack \<noteq> 1 \<longrightarrow>
       postfixToNFA postfix k = (Inl (Error ''Invalid regex/postfix; stack length != 1''), k')) \<and>
   (\<forall>e k'. processTokens postfix [] k = (Inl e, k') \<longrightarrow> postfixToNFA postfix k = (Inl e, k')) \<and>
   (\<forall>nfa k'. postfixToNFA postfix k = (Inr nfa, k') \<longrightarrow>
       (\<exists>n. processTokens postfix [] k = (Inr [n], k') \<and>
            nfa = n\<lparr>states := new_Set (states n)\<rparr>))"
proof (intro conjI allI impI)
  fix stack k'
  assume "processTokens postfix [] k = (Inr stack, k') \<and> length stack \<noteq> 1"
  then show "postfixToNFA postfix k = (Inl (Error ''Invalid regex/postfix; stack length != 1''), k')"
    by (simp add: postfixToNFA_def)
next
  fix e k'
  assume "processTokens postfix [] k = (Inl e, k')"
  then show "postfixToNFA postfix k = (Inl e, k')"
    by (simp add: postfixToNFA_def)
next
  fix nfa k'
  assume "postfixToNFA postfix k = (Inr nfa, k')"
  then show "\<exists>n. processTokens postfix [] k = (Inr [n], k') \<and>
            nfa = n\<lparr>states := new_Set (states n)\<rparr>"
    by (rule postfixToNFA_Inr)
qed

lemma postfix_ab_run:
  "processTokens ''ab'' [] 0 =
     (Inr [\<lparr>start = 2, accept = 3, states = [2, 3],
            transitions = [\<lparr>t_from = 2, t_to = 3, symbol = Some ''b''\<rparr>]\<rparr>,
           \<lparr>start = 0, accept = 1, states = [0, 1],
            transitions = [\<lparr>t_from = 0, t_to = 1, symbol = Some ''a''\<rparr>]\<rparr>], 4)"
  by (simp add: newState_def symbolFragment_def)

lemma postfix_bar_run: "processTokens ''a|'' [] 0 = (Inl TypeError, 4)"
  by (simp add: newState_def symbolFragment_def)

theorem postfixToNFA_throws_unless_one_witness:
  "postfixToNFA ''ab'' 0 = (Inl (Error ''Invalid regex/postfix; stack length != 1''), 4) \<and>
   postfixToNFA '''' 0 = (Inl (Error ''Invalid regex/postfix; stack length != 1''), 0) \<and>
   postfixToNFA ''a|'' 0 = (Inl TypeError, 4) \<and>
   (\<exists>n. processTokens ''ab|'' [] 0 = (Inr [n], 6))"
proof -
  have "postfixToNFA ''ab'' 0 = (Inl (Error ''Invalid regex/postfix; stack length != 1''), 4)"
    using postfixToNFA_throws_unless_one[of "''ab''" 0] postfix_ab_run by simp
  moreover have "postfixToNFA '''' 0 = (Inl (Error ''Invalid regex/postfix; stack length != 1''), 0)"
    using postfixToNFA_throws_unless_one[of "''''" 0] by simp
  moreover have "postfixToNFA ''a|'' 0 = (Inl TypeError, 4)"
    using postfixToNFA_throws_unless_one[of "''a|''" 0] postfix_bar_run by simp
  moreover have "\<exists>n. processTokens ''ab|'' [] 0 = (Inr [n], 6)"
    using postfixToNFA_throws_unless_one[of "''ab|''" 0] postfix_ab_bar by blast
  ultimately show ?thesis by blast
qed

section \<open>Reproducible builds\<close>

lemma relabel_star:
  "relabel h (starFragment n s f) = starFragment (relabel h n) (h s) (h f)"
  by (simp add: relabel_def starFragment_def relabelTransition_def)

lemma relabel_concat:
  "relabel h (concatFragment n1 n2) = concatFragment (relabel h n1) (relabel h n2)"
  by (simp add: relabel_def concatFragment_def relabelTransition_def)

lemma relabel_union:
  "relabel h (unionFragment n1 n2 s f) = unionFragment (relabel h n1) (relabel h n2) (h s) (h f)"
  by (simp add: relabel_def unionFragment_def relabelTransition_def)

lemma relabel_symbol:
  "relabel h (symbolFragment c s f) = symbolFragment c (h s) (h f)"
  by (simp add: relabel_def symbolFragment_def relabelTransition_def)

lemma processToken_shift:
  "processToken c (map (relabel (\<lambda>i. i + d)) stack) (k + d) =
     (map_sum id (map (relabel (\<lambda>i. i + d))) (fst (processToken c stack k)),
      snd (processToken c stack k) + d)"
proof -
  consider (star) "c = CHR ''*''" | (dot) "c = CHR ''.''" | (bar) "c = CHR ''|''"
    | (lit) "c \<noteq> CHR ''*''" "c \<noteq> CHR ''.''" "c \<noteq> CHR ''|''" by blast
  then show ?thesis
  proof cases
    case star
    then show ?thesis
      by (cases stack) (simp_all add: newState_def relabel_star)
  next
    case dot
    show ?thesis
    proof (cases stack)
      case Nil
      with dot show ?thesis by simp
    next
      case (Cons n2 rest)
      with dot show ?thesis by (cases rest) (simp_all add: relabel_concat)
    qed
  next
    case bar
    show ?thesis
    proof (cases stack)
      case Nil
      with bar show ?thesis by (simp add: newState_def)
    next
      case (Cons n2 rest)
      with bar show ?thesis by (cases rest) (simp_all add: newState_def relabel_union)
    qed
  next
    case lit
    then show ?thesis by (simp add: newState_def relabel_symbol)
  qed
qed

lemma processTokens_shift:
  "processTokens cs (map (relabel (\<lambda>i. i + d)) stack) (k + d) =
     (map_sum id (map (relabel (\<lambda>i. i + d))) (fst (processTokens cs stack k)),
      snd (processTokens cs stack k) + d)"
proof (induction cs arbitrary: stack k)
  case Nil
  show ?case by simp
next
  case (Cons c cs)
  obtain r k1 where step: "processToken c stack k = (r, k1)" by (cases "processToken c stack k")
  have step': "processToken c (map (relabel (\<lambda>i. i + d)) stack) (k + d) =
      (map_sum id (map (relabel (\<lambda>i. i + d))) r, k1 + d)"
    using processToken_shift[of c d stack k] step by simp
  show ?case
  proof (cases r)
    case (Inl e)
    with step step' show ?thesis by simp
  next
    case (Inr st1)
    with step step' Cons.IH[of st1 k1] show ?thesis by simp
  qed
qed

lemma foldl_Set_add_map:
  assumes "inj h"
  shows "foldl Set_add (map h acc) (map h xs) = map h (foldl Set_add acc xs)"
proof (induction xs arbitrary: acc)
  case Nil
  show ?case by simp
next
  case (Cons x xs)
  have "Set_add (map h acc) (h x) = map h (Set_add acc x)"
    using assms by (auto simp: Set_add_def inj_def)
  then show ?case using Cons.IH[of "Set_add acc x"] by simp
qed

lemma new_Set_map: "inj h \<Longrightarrow> new_Set (map h xs) = map h (new_Set xs)"
  using foldl_Set_add_map[of h "[]" xs] by (simp add: new_Set_def)

lemma postfixToNFA_shift:
  "postfixToNFA postfix d =
     (map_sum id (relabel (\<lambda>i. i + d)) (fst (postfixToNFA postfix 0)),
      snd (postfixToNFA postfix 0) + d)"
proof -
  obtain r k1 where run: "processTokens postfix [] 0 = (r, k1)"
    by (cases "processTokens postfix [] 0")
  have run': "processTokens postfix [] d = (map_sum id (map (relabel (\<lambda>i. i + d))) r, k1 + d)"
    using processTokens_shift[of postfix d "[]" 0] run by simp
  have inj: "inj (\<lambda>i::nat. i + d)" by (simp add: inj_def)
  show ?thesis
  proof (cases r)
    case (Inl e)
    with run run' show ?thesis by (simp add: postfixToNFA_def)
  next
    case (Inr stack)
    show ?thesis
    proof (cases stack)
      case Nil
      with Inr run run' show ?thesis by (simp add: postfixToNFA_def)
    next
      case (Cons n rest)
      have "relabel (\<lambda>i. i + d) n\<lparr>states := new_Set (states (relabel (\<lambda>i. i + d) n))\<rparr> =
            relabel (\<lambda>i. i + d) (n\<lparr>states := new_Set (states n)\<rparr>)"
        by (simp add: relabel_def new_Set_map[OF inj])
      with Cons Inr run run' show ?thesis by (simp add: postfixToNFA_def)
    qed
  qed
qed

text \<open>
  C9: resetting the counter and compiling a pattern, then doing both again, gives the
  same result and the same final counter.  Compiling again without the reset gives
  the first result with every id shifted by the number of ids the first build used:
  the same automaton up to a consistent relabelling.
\<close>

theorem compile_reproducible:
  "(case postfixToNFA (regexToPostfix pattern) (resetIds k0) of (r1, k1) \<Rightarrow>
      case postfixToNFA (regexToPostfix pattern) (resetIds k1) of (r2, k2) \<Rightarrow>
        r1 = r2 \<and> k1 = k2) \<and>
   (case postfixToNFA (regexToPostfix pattern) (resetIds k0) of (r1, k1) \<Rightarrow>
      case postfixToNFA (regexToPostfix pattern) k1 of (r2, k2) \<Rightarrow>
        r2 = map_sum id (relabel (\<lambda>i. i + k1)) r1 \<and> k2 = k1 + k1)"
proof -
  obtain r1 k1 where c: "postfixToNFA (regexToPostfix pattern) 0 = (r1, k1)"
    by (cases "postfixToNFA (regexToPostfix pattern) 0")
  have "postfixToNFA (regexToPostfix pattern) k1 = (map_sum id (relabel (\<lambda>i. i + k1)) r1, k1 + k1)"
    using postfixToNFA_shift[of "regexToPostfix pattern" k1] c by simp
  with c show ?thesis by (simp add: resetIds_def)
qed

section \<open>Keys of subsets\<close>

lemma digitChar_props:
  assumes "d < 10"
  shows "isDigit (digitChar d)" "digitVal (digitChar d) = d" "digitChar d \<noteq> CHR '',''"
proof -
  from assms have "d = 0 \<or> d = 1 \<or> d = 2 \<or> d = 3 \<or> d = 4 \<or> d = 5
    \<or> d = 6 \<or> d = 7 \<or> d = 8 \<or> d = 9" by arith
  then consider "d = 0" | "d = 1" | "d = 2" | "d = 3" | "d = 4" | "d = 5"
    | "d = 6" | "d = 7" | "d = 8" | "d = 9" by blast
  then have "isDigit (digitChar d) \<and> digitVal (digitChar d) = d \<and> digitChar d \<noteq> CHR '',''"
    by cases (simp_all add: digitChar_def isDigit_def digitVal_def)
  then show "isDigit (digitChar d)" "digitVal (digitChar d) = d" "digitChar d \<noteq> CHR '',''"
    by simp_all
qed

lemma numToString_props:
  "numToString n \<noteq> [] \<and> list_all isDigit (numToString n) \<and> CHR '','' \<notin> set (numToString n) \<and>
   foldl (\<lambda>m c. 10 * m + digitVal c) 0 (numToString n) = n"
proof (induction n rule: numToString.induct)
  case (1 n)
  show ?case
  proof (cases "n < 10")
    case True
    then show ?thesis using digitChar_props[of n] by (simp add: numToString.simps[of n])
  next
    case False
    have m: "n mod 10 < 10" by simp
    from False 1 have IH: "numToString (n div 10) \<noteq> []" "list_all isDigit (numToString (n div 10))"
      "CHR '','' \<notin> set (numToString (n div 10))"
      "foldl (\<lambda>m c. 10 * m + digitVal c) 0 (numToString (n div 10)) = n div 10" by simp_all
    have s: "numToString n = numToString (n div 10) @ [digitChar (n mod 10)]"
      using False by (simp add: numToString.simps[of n])
    show ?thesis unfolding s using IH digitChar_props[OF m] by simp
  qed
qed

lemma Number_numToString: "Number (numToString n) = Some n"
  using numToString_props[of n] by (simp add: Number_def)

lemma splitFrom_no_sep:
  "sep \<notin> set x \<Longrightarrow> splitFrom sep cur x = [cur @ x]"
  by (induction x arbitrary: cur) auto

lemma splitFrom_append_sep:
  "sep \<notin> set x \<Longrightarrow> splitFrom sep cur (x @ sep # rest) = (cur @ x) # splitFrom sep [] rest"
  by (induction x arbitrary: cur) auto

lemma split_join:
  assumes "xs \<noteq> []" "\<forall>x \<in> set xs. sep \<notin> set x"
  shows "split sep (join [sep] xs) = xs"
  using assms
proof (induction "[sep]" xs rule: join.induct)
  case 1
  then show ?case by simp
next
  case (2 x)
  then show ?case by (simp add: split_def splitFrom_no_sep)
next
  case (3 x y ys)
  then have "splitFrom sep [] (join [sep] (y # ys)) = y # ys" by (simp add: split_def)
  moreover have "sep \<notin> set x" using 3 by simp
  ultimately show ?case by (simp add: split_def splitFrom_append_sep)
qed

lemma join_Nil_iff:
  "\<forall>x \<in> set xs. x \<noteq> [] \<Longrightarrow> join sep xs = [] \<longleftrightarrow> xs = []"
  by (induction sep xs rule: join.induct) auto

lemma keyParts_keyOf: "keyParts (keyOf s) = map Some (sort s)"
proof (cases "s = []")
  case True
  then show ?thesis by (simp add: keyParts_def keyOf_def)
next
  case False
  let ?xs = "map numToString (sort s)"
  have "length ?xs = length s" by simp
  then have ne: "?xs \<noteq> []" using False by (metis length_0_conv)
  have nosep: "\<forall>x \<in> set ?xs. CHR '','' \<notin> set x" using numToString_props by auto
  have "\<forall>x \<in> set ?xs. x \<noteq> []" using numToString_props by auto
  then have "join '','' ?xs \<noteq> []" using ne join_Nil_iff by blast
  then have "keyParts (keyOf s) = map Number (split CHR '','' (join '','' ?xs))"
    by (simp add: keyParts_def keyOf_def)
  also have "\<dots> = map Number ?xs" using split_join[OF ne nosep] by simp
  also have "\<dots> = map Some (sort s)" by (simp add: Number_numToString comp_def)
  finally show ?thesis .
qed

lemma keyOf_eq_iff:
  assumes "distinct s" "distinct s'"
  shows "keyOf s = keyOf s' \<longleftrightarrow> set s = set s'"
proof
  assume "keyOf s = keyOf s'"
  then have "map Some (sort s) = map Some (sort s')" using keyParts_keyOf by metis
  then have "sort s = sort s'" by (simp add: inj_map_eq_map)
  then have "set (sort s) = set (sort s')" by simp
  then show "set s = set s'" by simp
next
  assume eq: "set s = set s'"
  have "sort s = sort s'"
    by (rule sorted_distinct_set_unique) (use assms eq in simp_all)
  then show "keyOf s = keyOf s'" by (simp add: keyOf_def)
qed

section \<open>Epsilon closure and move as relations\<close>

lemma set_Set_add: "set (Set_add s x) = insert x (set s)"
  by (auto simp: Set_add_def)

lemma distinct_Set_add: "distinct s \<Longrightarrow> distinct (Set_add s x)"
  by (auto simp: Set_add_def)

lemma closureScan_res:
  "closureScan s ts stack res = (stack', res') \<Longrightarrow>
   set res' = set res \<union> {t_to t | t. t \<in> set ts \<and> t_from t = s \<and> symbol t = None}"
proof (induction ts arbitrary: stack res)
  case Nil
  then show ?case by simp
next
  case (Cons t ts)
  show ?case
  proof (cases "t_from t = s \<and> symbol t = None \<and> t_to t \<notin> set res")
    case True
    with Cons.prems have run: "closureScan s ts (t_to t # stack) (Set_add res (t_to t)) = (stack', res')"
      by simp
    from Cons.IH[OF run] True show ?thesis by (auto simp: set_Set_add)
  next
    case False
    with Cons.prems have run: "closureScan s ts stack res = (stack', res')" by auto
    from Cons.IH[OF run] False show ?thesis by auto
  qed
qed

lemma closureScan_stack:
  "closureScan s ts stack res = (stack', res') \<Longrightarrow> set stack' = set stack \<union> (set res' - set res)"
proof (induction ts arbitrary: stack res)
  case Nil
  then show ?case by simp
next
  case (Cons t ts)
  show ?case
  proof (cases "t_from t = s \<and> symbol t = None \<and> t_to t \<notin> set res")
    case True
    with Cons.prems have run: "closureScan s ts (t_to t # stack) (Set_add res (t_to t)) = (stack', res')"
      by simp
    from Cons.IH[OF run] closureScan_res[OF run] True show ?thesis
      by (auto simp: set_Set_add)
  next
    case False
    with Cons.prems have run: "closureScan s ts stack res = (stack', res')" by auto
    from Cons.IH[OF run] show ?thesis .
  qed
qed

lemma closureScan_distinct:
  "closureScan s ts stack res = (stack', res') \<Longrightarrow> distinct res \<Longrightarrow> distinct res'"
proof (induction ts arbitrary: stack res)
  case Nil
  then show ?case by simp
next
  case (Cons t ts)
  show ?case
  proof (cases "t_from t = s \<and> symbol t = None \<and> t_to t \<notin> set res")
    case True
    with Cons.prems have run: "closureScan s ts (t_to t # stack) (Set_add res (t_to t)) = (stack', res')"
      by simp
    have "distinct (Set_add res (t_to t))" using Cons.prems(2) by (rule distinct_Set_add)
    with Cons.IH[OF run] show ?thesis .
  next
    case False
    with Cons.prems have run: "closureScan s ts stack res = (stack', res')" by auto
    from Cons.IH[OF run Cons.prems(2)] show ?thesis .
  qed
qed

lemma closureScan_step:
  assumes "closureScan s (transitions nfa) stack res = (stack', res')"
  shows "set res' = set res \<union> epsEdges nfa `` {s}"
  using closureScan_res[OF assms] by (auto simp: epsEdges_def)

lemma closure_inv_step:
  assumes inv: "closure_inv nfa S (s # stack) res"
    and run: "closureScan s (transitions nfa) stack res = (stack', res')"
  shows "closure_inv nfa S stack' res'"
proof -
  note r = closureScan_step[OF run] and st = closureScan_stack[OF run]
  have d: "distinct res'" using closureScan_distinct[OF run] inv by (simp add: closure_inv_def)
  have sin: "s \<in> (epsEdges nfa)\<^sup>* `` S" using inv by (auto simp: closure_inv_def)
  have new: "epsEdges nfa `` {s} \<subseteq> (epsEdges nfa)\<^sup>* `` S"
  proof
    fix q assume "q \<in> epsEdges nfa `` {s}"
    then have "(s, q) \<in> epsEdges nfa" by simp
    moreover from sin obtain p where "p \<in> S" "(p, s) \<in> (epsEdges nfa)\<^sup>*" by auto
    ultimately have "(p, q) \<in> (epsEdges nfa)\<^sup>*" by (meson rtrancl.rtrancl_into_rtrancl)
    with \<open>p \<in> S\<close> show "q \<in> (epsEdges nfa)\<^sup>* `` S" by auto
  qed
  have closed: "epsEdges nfa `` {p} \<subseteq> set res'" if "p \<in> set res' - set stack'" for p
  proof (cases "p = s")
    case True
    then show ?thesis using r by auto
  next
    case False
    from that st have "p \<in> set res" "p \<notin> set stack" by auto
    with False inv have "epsEdges nfa `` {p} \<subseteq> set res" by (simp add: closure_inv_def)
    then show ?thesis using r by auto
  qed
  have "S \<subseteq> set res'" using inv r by (auto simp: closure_inv_def)
  moreover have "set stack' \<subseteq> set res'" using inv r st by (auto simp: closure_inv_def)
  moreover have "set res' \<subseteq> (epsEdges nfa)\<^sup>* `` S"
    using inv r new by (auto simp: closure_inv_def)
  ultimately show ?thesis using d closed unfolding closure_inv_def by blast
qed

lemma closureLoop_inv:
  "closure_inv nfa S stack res \<Longrightarrow> ts = transitions nfa \<Longrightarrow>
   closure_inv nfa S [] (closureLoop ts stack res)"
proof (induction ts stack res rule: closureLoop.induct)
  case (1 ts res)
  then show ?case by simp
next
  case (2 ts s stack res)
  obtain stack' res' where run: "closureScan s ts stack res = (stack', res')"
    by (cases "closureScan s ts stack res")
  have "closure_inv nfa S stack' res'"
    using closure_inv_step[OF "2.prems"(1)] run "2.prems"(2) by simp
  from "2.IH"[OF run[symmetric] this "2.prems"(2)] run show ?case by simp
qed

lemma closure_inv_final:
  assumes "closure_inv nfa S [] res"
  shows "set res = (epsEdges nfa)\<^sup>* `` S"
proof
  show "set res \<subseteq> (epsEdges nfa)\<^sup>* `` S" using assms by (simp add: closure_inv_def)
next
  have closed: "\<And>p q. p \<in> set res \<Longrightarrow> (p, q) \<in> epsEdges nfa \<Longrightarrow> q \<in> set res"
    using assms by (auto simp: closure_inv_def)
  have "q \<in> set res" if "(p, q) \<in> (epsEdges nfa)\<^sup>*" "p \<in> set res" for p q
    using that by (induction rule: rtrancl_induct) (auto intro: closed)
  moreover have "S \<subseteq> set res" using assms by (simp add: closure_inv_def)
  ultimately show "(epsEdges nfa)\<^sup>* `` S \<subseteq> set res" by auto
qed

lemma epsilonClosure_props:
  "set (epsilonClosure nfa stateSet) = (epsEdges nfa)\<^sup>* `` set stateSet"
  "distinct (epsilonClosure nfa stateSet)"
proof -
  have "closure_inv nfa (set stateSet) (rev stateSet) (new_Set stateSet)"
    by (auto simp: closure_inv_def set_new_Set distinct_new_Set)
  from closureLoop_inv[OF this refl]
  have fin: "closure_inv nfa (set stateSet) [] (epsilonClosure nfa stateSet)"
    by (simp add: epsilonClosure_def)
  from closure_inv_final[OF fin] show "set (epsilonClosure nfa stateSet) = (epsEdges nfa)\<^sup>* `` set stateSet" .
  from fin show "distinct (epsilonClosure nfa stateSet)" by (simp add: closure_inv_def)
qed

lemma moveScan_props:
  "set (moveScan s a ts res) = set res \<union> {t_to t | t. t \<in> set ts \<and> t_from t = s \<and> symbol t = Some a}"
  "distinct res \<Longrightarrow> distinct (moveScan s a ts res)"
  by (induction ts arbitrary: res) (auto simp: set_Set_add distinct_Set_add)

lemma moveLoop_props:
  "set (moveLoop ts stateSet a res) =
     set res \<union> {t_to t | t. t \<in> set ts \<and> t_from t \<in> set stateSet \<and> symbol t = Some a}"
  "distinct res \<Longrightarrow> distinct (moveLoop ts stateSet a res)"
  by (induction stateSet arbitrary: res) (auto simp: moveScan_props)

lemma move_props:
  "set (move nfa stateSet a) = symEdges nfa a `` set stateSet"
  "distinct (move nfa stateSet a)"
  by (auto simp: move_def moveLoop_props symEdges_def)

lemma collectAlphabet_props:
  "set (collectAlphabet ts alphabet) = set alphabet \<union> {a. \<exists>t \<in> set ts. symbol t = Some a}"
  "distinct alphabet \<Longrightarrow> distinct (collectAlphabet ts alphabet)"
  by (induction ts arbitrary: alphabet) (auto simp: set_Set_add distinct_Set_add split: option.splits)

section \<open>The subset construction terminates and keeps its invariant\<close>

lemma tr_ok_append: "tr_ok nfa L t \<Longrightarrow> tr_ok nfa (L @ ext) t"
  by (auto simp: tr_ok_def nth_append)

lemma epsilonClosure_universe:
  assumes "set S \<subseteq> universe nfa"
  shows "set (epsilonClosure nfa S) \<subseteq> universe nfa"
proof
  fix q assume "q \<in> set (epsilonClosure nfa S)"
  then obtain p where p: "p \<in> set S" "(p, q) \<in> (epsEdges nfa)\<^sup>*"
    by (auto simp: epsilonClosure_props)
  from p(2) p(1) assms show "q \<in> universe nfa"
    by (induction rule: rtrancl_induct) (auto simp: epsEdges_def universe_def)
qed

lemma move_universe: "set (move nfa S a) \<subseteq> universe nfa"
  by (auto simp: move_props symEdges_def universe_def)

lemma update_fresh: "map_of m k = None \<Longrightarrow> AList.update k v m = m @ [(k, v)]"
  by (induction m) (auto split: if_splits)

lemma map_of_zip_upt_Some:
  assumes "map_of (zip ks [0..<length ks]) k = Some j"
  shows "j < length ks \<and> ks ! j = k"
proof -
  from assms have "(k, j) \<in> set (zip ks [0..<length ks])" by (rule map_of_SomeD)
  then obtain i where "i < length ks" "ks ! i = k" "[0..<length ks] ! i = j"
    by (auto simp: in_set_zip)
  then show ?thesis by simp
qed

lemma map_of_zip_upt_nth:
  assumes "distinct ks" "i < length ks"
  shows "map_of (zip ks [0..<length ks]) (ks ! i) = Some i"
  using map_of_zip_nth[of ks "[0..<length ks]" i] assms by simp

lemma map_of_zip_upt_None:
  "map_of (zip ks [0..<length ks]) k = None \<longleftrightarrow> k \<notin> set ks"
  using map_of_zip_is_None[of ks "[0..<length ks]" k] by simp

lemma build_base_bound:
  assumes "build_base nfa b"
  shows "length (dfaStatesList b) \<le> 2 ^ card (universe nfa)"
proof -
  let ?L = "dfaStatesList b"
  have fin: "finite (universe nfa)" by (simp add: universe_def)
  have dk: "distinct (map keyOf ?L)" and ds: "\<forall>S \<in> set ?L. distinct S \<and> set S \<subseteq> universe nfa"
    using assms by (simp_all add: build_base_def)
  from dk have dL: "distinct ?L" and injk: "inj_on keyOf (set ?L)" by (simp_all add: distinct_map)
  have "inj_on set (set ?L)"
  proof (rule inj_onI)
    fix S S' assume m: "S \<in> set ?L" "S' \<in> set ?L" and eq: "set S = set S'"
    then have "keyOf S = keyOf S'" using ds keyOf_eq_iff by blast
    with injk m show "S = S'" by (auto dest: inj_onD)
  qed
  then have "card (set ` set ?L) = card (set ?L)" by (rule card_image)
  also have "\<dots> = length ?L" using dL by (rule distinct_card)
  finally have "length ?L = card (set ` set ?L)" by simp
  also have "\<dots> \<le> card (Pow (universe nfa))"
    using ds fin by (intro card_mono) auto
  also have "\<dots> = 2 ^ card (universe nfa)" using fin by (rule card_Pow)
  finally show ?thesis .
qed

lemma build_inv_extend:
  assumes inv: "build_inv nfa b C"
    and idx: "idx < length (dfaStatesList b)"
    and fresh: "(idx, a) \<notin> C"
    and base': "build_base nfa b'"
    and L': "dfaStatesList b' = dfaStatesList b @ ext"
    and T': "b_transitions b' = b_transitions b @ [t]"
    and t: "d_from t = idx" "d_symbol t = a" "tr_ok nfa (dfaStatesList b') t"
  shows "build_inv nfa b' (insert (idx, a) C)"
proof -
  let ?L = "dfaStatesList b" and ?T = "b_transitions b"
  have old: "\<And>u. u \<in> set ?T \<Longrightarrow> (d_from u, d_symbol u) \<in> C \<and> tr_ok nfa ?L u"
    using inv by (simp add: build_inv_def)
  have dT: "distinct (map (\<lambda>t. (d_from t, d_symbol t)) ?T)"
    using inv by (simp add: build_inv_def)
  have cov: "\<And>i c. (i, c) \<in> C \<Longrightarrow> i < length ?L \<and>
        (move nfa (?L ! i) c \<noteq> [] \<longrightarrow> (\<exists>u \<in> set ?T. d_from u = i \<and> d_symbol u = c))"
    using inv by (auto simp: build_inv_def)
  have 1: "\<forall>u \<in> set (b_transitions b'). (d_from u, d_symbol u) \<in> insert (idx, a) C \<and>
             tr_ok nfa (dfaStatesList b') u"
  proof
    fix u assume "u \<in> set (b_transitions b')"
    then consider "u \<in> set ?T" | "u = t" using T' by auto
    then show "(d_from u, d_symbol u) \<in> insert (idx, a) C \<and> tr_ok nfa (dfaStatesList b') u"
    proof cases
      case 1
      from old[OF 1] show ?thesis unfolding L' by (simp add: tr_ok_append)
    next
      case 2
      with t show ?thesis by simp
    qed
  qed
  have "(idx, a) \<notin> (\<lambda>t. (d_from t, d_symbol t)) ` set ?T"
    using old fresh by auto
  then have 2: "distinct (map (\<lambda>t. (d_from t, d_symbol t)) (b_transitions b'))"
    using dT T' t(1,2) by simp
  have 3: "\<forall>(i, c) \<in> insert (idx, a) C. i < length (dfaStatesList b') \<and>
        (move nfa (dfaStatesList b' ! i) c \<noteq> [] \<longrightarrow>
           (\<exists>u \<in> set (b_transitions b'). d_from u = i \<and> d_symbol u = c))"
  proof (clarify, intro conjI impI)
    fix i c assume m: "(i, c) \<in> insert (idx, a) C"
    have "i < length (dfaStatesList b)"
    proof (cases "(i, c) = (idx, a)")
      case True
      then show ?thesis using idx by simp
    next
      case False
      with m have "(i, c) \<in> C" by blast
      from cov[OF this] show ?thesis by simp
    qed
    then show "i < length (dfaStatesList b')" unfolding L' by simp
    assume mv: "move nfa (dfaStatesList b' ! i) c \<noteq> []"
    from m consider "(i, c) = (idx, a)" | "(i, c) \<in> C" by auto
    then show "\<exists>u \<in> set (b_transitions b'). d_from u = i \<and> d_symbol u = c"
    proof cases
      case 1
      then show ?thesis using t(1,2) T' by auto
    next
      case 2
      from cov[OF 2] have lt: "i < length ?L" by simp
      then have "dfaStatesList b' ! i = ?L ! i" unfolding L' by (simp add: nth_append)
      with mv cov[OF 2] obtain u where "u \<in> set ?T" "d_from u = i" "d_symbol u = c" by auto
      then show ?thesis using T' by auto
    qed
  qed
  from base' 1 2 3 show ?thesis unfolding build_inv_def by blast
qed

lemma build_inv_skip:
  assumes inv: "build_inv nfa b C"
    and idx: "idx < length (dfaStatesList b)"
    and mv: "move nfa (dfaStatesList b ! idx) a = []"
  shows "build_inv nfa b (insert (idx, a) C)"
  using assms unfolding build_inv_def by auto

lemma symbolStep_inv:
  assumes inv: "build_inv nfa b C"
    and idx: "idx < length (dfaStatesList b)"
    and fresh: "(idx, a) \<notin> C"
  shows "\<exists>b' ext. symbolStep nfa (dfaStatesList b ! idx) idx a b = Some b' \<and>
           dfaStatesList b' = dfaStatesList b @ ext \<and> build_inv nfa b' (insert (idx, a) C)"
proof (cases "move nfa (dfaStatesList b ! idx) a = []")
  case True
  then have "symbolStep nfa (dfaStatesList b ! idx) idx a b = Some b"
    by (simp add: symbolStep_def)
  moreover have "dfaStatesList b = dfaStatesList b @ []" by simp
  ultimately show ?thesis using build_inv_skip[OF inv idx True] by blast
next
  case False
  let ?L = "dfaStatesList b" and ?m = "dfaStatesMap b"
  let ?moved = "move nfa (?L ! idx) a"
  let ?cl = "epsilonClosure nfa ?moved"
  let ?k = "keyOf ?cl"
  let ?n = "length ?L"
  have base: "build_base nfa b" using inv by (simp add: build_inv_def)
  then have m: "?m = zip (map keyOf ?L) [0..<?n]"
    and dk: "distinct (map keyOf ?L)"
    and ds: "\<And>S. S \<in> set ?L \<Longrightarrow> distinct S \<and> set S \<subseteq> universe nfa"
    by (simp_all add: build_base_def)
  have dcl: "distinct ?cl" by (rule epsilonClosure_props)
  have ucl: "set ?cl \<subseteq> universe nfa" by (intro epsilonClosure_universe move_universe)
  have len: "length ?moved \<noteq> 0" using False by simp
  show ?thesis
  proof (cases "map_of ?m ?k")
    case None
    then have knew: "?k \<notin> set (map keyOf ?L)"
      using map_of_zip_upt_None[of "map keyOf ?L" ?k] m by simp
    define b1 where "b1 = b\<lparr>dfaStatesMap := ?m @ [(?k, ?n)], dfaStatesList := ?L @ [?cl]\<rparr>"
    define t where "t = \<lparr>d_from = idx, d_to = ?n, d_symbol = a\<rparr>"
    define b' where "b' = b1\<lparr>b_transitions := b_transitions b1 @ [t]\<rparr>"
    have look: "map_of (?m @ [(?k, ?n)]) ?k = Some ?n" using None by (simp add: map_add_def)
    have step: "symbolStep nfa (?L ! idx) idx a b = Some b'"
      unfolding symbolStep_def Let_def using len None look
      by (simp add: update_fresh b'_def b1_def t_def)
    have L': "dfaStatesList b' = ?L @ [?cl]" by (simp add: b'_def b1_def)
    have T': "b_transitions b' = b_transitions b @ [t]" by (simp add: b'_def b1_def)
    have M': "dfaStatesMap b' = ?m @ [(?k, ?n)]" by (simp add: b'_def b1_def)
    have base': "build_base nfa b'"
      unfolding build_base_def L' M' using m dk ds knew dcl ucl by auto
    have tok: "tr_ok nfa (dfaStatesList b') t"
      unfolding L' tr_ok_def t_def using idx False by (simp add: nth_append)
    have "build_inv nfa b' (insert (idx, a) C)"
      by (rule build_inv_extend[OF inv idx fresh base' L' T' _ _ tok]) (simp_all add: t_def)
    with step L' show ?thesis by blast
  next
    case (Some j)
    with m have j0: "j < ?n \<and> map keyOf ?L ! j = ?k"
      using map_of_zip_upt_Some[of "map keyOf ?L" ?k j] by simp
    then have j: "j < ?n" "keyOf (?L ! j) = ?k" using nth_map[of j ?L keyOf] by auto
    define t where "t = \<lparr>d_from = idx, d_to = j, d_symbol = a\<rparr>"
    define b' where "b' = b\<lparr>b_transitions := b_transitions b @ [t]\<rparr>"
    have step: "symbolStep nfa (?L ! idx) idx a b = Some b'"
      unfolding symbolStep_def Let_def using len Some
      by (simp add: b'_def t_def)
    have L': "dfaStatesList b' = ?L @ []" by (simp add: b'_def)
    have T': "b_transitions b' = b_transitions b @ [t]" by (simp add: b'_def)
    have base': "build_base nfa b'" using base by (simp add: build_base_def b'_def)
    have "distinct (?L ! j)" using ds j(1) by simp
    then have "set (?L ! j) = set ?cl" using keyOf_eq_iff[of "?L ! j" ?cl] dcl j(2) by simp
    then have tok: "tr_ok nfa (dfaStatesList b') t"
      unfolding tr_ok_def t_def using idx False j(1) by (simp add: b'_def)
    have "build_inv nfa b' (insert (idx, a) C)"
      by (rule build_inv_extend[OF inv idx fresh base' L' T' _ _ tok]) (simp_all add: t_def)
    with step L' show ?thesis by blast
  qed
qed

lemma forSymbols_inv:
  assumes "build_inv nfa b C" "idx < length (dfaStatesList b)"
    "distinct labs" "\<forall>a \<in> set labs. (idx, a) \<notin> C"
  shows "\<exists>b' ext. forSymbols nfa (dfaStatesList b ! idx) idx labs b = Some b' \<and>
           dfaStatesList b' = dfaStatesList b @ ext \<and>
           build_inv nfa b' (C \<union> {idx} \<times> set labs)"
  using assms
proof (induction labs arbitrary: b C)
  case Nil
  then show ?case by simp
next
  case (Cons a labs)
  from Cons.prems have fresh: "(idx, a) \<notin> C" by simp
  from symbolStep_inv[OF Cons.prems(1,2) fresh] obtain b1 ext1 where
    step: "symbolStep nfa (dfaStatesList b ! idx) idx a b = Some b1"
    and L1: "dfaStatesList b1 = dfaStatesList b @ ext1"
    and inv1: "build_inv nfa b1 (insert (idx, a) C)" by blast
  have idx1: "idx < length (dfaStatesList b1)" using Cons.prems(2) L1 by simp
  have cur: "dfaStatesList b1 ! idx = dfaStatesList b ! idx"
    using Cons.prems(2) L1 by (simp add: nth_append)
  have fresh1: "\<forall>c \<in> set labs. (idx, c) \<notin> insert (idx, a) C" using Cons.prems(3,4) by auto
  have d1: "distinct labs" using Cons.prems(3) by simp
  from Cons.IH[OF inv1 idx1 d1 fresh1] obtain b' ext where
    run: "forSymbols nfa (dfaStatesList b1 ! idx) idx labs b1 = Some b'"
    and L': "dfaStatesList b' = dfaStatesList b1 @ ext"
    and inv': "build_inv nfa b' (insert (idx, a) C \<union> {idx} \<times> set labs)" by blast
  have "forSymbols nfa (dfaStatesList b ! idx) idx (a # labs) b = Some b'"
    using step run cur by simp
  moreover have "dfaStatesList b' = dfaStatesList b @ (ext1 @ ext)" using L' L1 by simp
  moreover have "insert (idx, a) C \<union> {idx} \<times> set labs = C \<union> {idx} \<times> set (a # labs)" by auto
  ultimately show ?case using inv' by metis
qed

lemma whileIdx_total:
  assumes "build_inv nfa b ({..<idx} \<times> set alphabet)" "idx \<le> length (dfaStatesList b)"
    "distinct alphabet"
  shows "\<exists>b' ext. whileIdx nfa alphabet b idx = Some b' \<and>
           dfaStatesList b' = dfaStatesList b @ ext \<and>
           build_inv nfa b' ({..<length (dfaStatesList b')} \<times> set alphabet)"
  using assms(1,2)
proof (induction "2 ^ card (universe nfa) - idx" arbitrary: b idx rule: less_induct)
  case less
  let ?L = "dfaStatesList b"
  show ?case
  proof (cases "idx < length ?L")
    case False
    with less.prems(2) have eq: "idx = length ?L" by simp
    have "whileIdx nfa alphabet b idx = Some b"
      using False by (subst whileIdx.simps) simp
    moreover have "?L = ?L @ []" by simp
    ultimately show ?thesis using less.prems(1) eq by blast
  next
    case True
    have base: "build_base nfa b" using less.prems(1) by (simp add: build_inv_def)
    then have m: "dfaStatesMap b = zip (map keyOf ?L) [0..<length ?L]"
      and dk: "distinct (map keyOf ?L)" by (simp_all add: build_base_def)
    have "map_of (zip (map keyOf ?L) [0..<length (map keyOf ?L)]) (map keyOf ?L ! idx) = Some idx"
      using dk True by (intro map_of_zip_upt_nth) simp_all
    then have look: "map_of (dfaStatesMap b) (keyOf (?L ! idx)) = Some idx"
      using m True by simp
    have fresh: "\<forall>a \<in> set alphabet. (idx, a) \<notin> {..<idx} \<times> set alphabet" by simp
    from forSymbols_inv[OF less.prems(1) True assms(3) fresh] obtain b1 ext1 where
      run: "forSymbols nfa (?L ! idx) idx alphabet b = Some b1"
      and L1: "dfaStatesList b1 = ?L @ ext1"
      and inv1: "build_inv nfa b1 ({..<idx} \<times> set alphabet \<union> {idx} \<times> set alphabet)" by blast
    have "{..<idx} \<times> set alphabet \<union> {idx} \<times> set alphabet = {..<Suc idx} \<times> set alphabet"
      by (auto simp: less_Suc_eq)
    with inv1 have inv1': "build_inv nfa b1 ({..<Suc idx} \<times> set alphabet)" by simp
    have le1: "Suc idx \<le> length (dfaStatesList b1)" using True L1 by simp
    have "length ?L \<le> 2 ^ card (universe nfa)" using base by (rule build_base_bound)
    with True have dec: "2 ^ card (universe nfa) - Suc idx < 2 ^ card (universe nfa) - idx"
      by linarith
    from less.hyps[OF dec inv1' le1] obtain b' ext where
      rest: "whileIdx nfa alphabet b1 (Suc idx) = Some b'"
      and L': "dfaStatesList b' = dfaStatesList b1 @ ext"
      and inv': "build_inv nfa b' ({..<length (dfaStatesList b')} \<times> set alphabet)" by blast
    have "whileIdx nfa alphabet b idx = Some b'"
      using True look run rest by (subst whileIdx.simps) simp
    moreover have "dfaStatesList b' = ?L @ (ext1 @ ext)" using L' L1 by simp
    ultimately show ?thesis using inv' by blast
  qed
qed

lemma accept_in_parts:
  "Some acc \<in> set (if keyOf S = [] then [] else map Number (split CHR '','' (keyOf S))) \<longleftrightarrow> acc \<in> set S"
proof -
  have "(if keyOf S = [] then [] else map Number (split CHR '','' (keyOf S))) = map Some (sort S)"
    using keyParts_keyOf[of S] by (simp add: keyParts_def)
  then show ?thesis by auto
qed

lemma collectAccept_zip:
  "collectAccept acc (zip (map keyOf Ls) ns) out =
     out @ map snd (filter (\<lambda>(S, i). acc \<in> set S) (zip Ls ns))"
proof (induction Ls arbitrary: ns out)
  case Nil
  show ?case by simp
next
  case (Cons S Ls)
  show ?case
  proof (cases ns)
    case Nil
    then show ?thesis by simp
  next
    case (Cons i ns')
    show ?thesis unfolding Cons
      using accept_in_parts[of acc S] Cons.IH[of ns'] by (simp add: Let_def)
  qed
qed

lemma set_collectAccept:
  "set (collectAccept acc (zip (map keyOf L) [0..<length L]) []) = {i. i < length L \<and> acc \<in> set (L ! i)}"
proof -
  have "set (map snd (filter (\<lambda>(S, i). acc \<in> set S) (zip L [0..<length L]))) =
        {i. i < length L \<and> acc \<in> set (L ! i)}"
  proof (intro set_eqI iffI)
    fix i assume "i \<in> set (map snd (filter (\<lambda>(S, i). acc \<in> set S) (zip L [0..<length L])))"
    then obtain S where "(S, i) \<in> set (zip L [0..<length L])" "acc \<in> set S" by auto
    then show "i \<in> {i. i < length L \<and> acc \<in> set (L ! i)}" by (auto simp: set_zip)
  next
    fix i assume "i \<in> {i. i < length L \<and> acc \<in> set (L ! i)}"
    then have i: "i < length L" "acc \<in> set (L ! i)" by simp_all
    then have "(L ! i, i) \<in> set (zip L [0..<length L])"
      unfolding set_zip by (auto intro!: exI[of _ i])
    with i(2) have "(L ! i, i) \<in> set (filter (\<lambda>(S, i). acc \<in> set S) (zip L [0..<length L]))"
      by simp
    then show "i \<in> set (map snd (filter (\<lambda>(S, i). acc \<in> set S) (zip L [0..<length L])))"
      by force
  qed
  then show ?thesis by (simp add: collectAccept_zip)
qed

section \<open>The DFA simulates the NFA\<close>

lemma move_nonempty_alphabet:
  assumes "move nfa S a \<noteq> []"
  shows "a \<in> set (collectAlphabet (transitions nfa) [])"
proof -
  from assms have "set (move nfa S a) \<noteq> {}" by simp
  then obtain p q where "(p, q) \<in> symEdges nfa a" unfolding move_props by auto
  then show ?thesis by (auto simp: symEdges_def collectAlphabet_props)
qed

lemma nfaToDfa_result: "\<exists>d L. nfaToDfa nfa = Some d \<and> dfa_of nfa L d"
proof -
  let ?A = "collectAlphabet (transitions nfa) []"
  let ?s0 = "epsilonClosure nfa (new_Set [start nfa])"
  define b0 where "b0 = \<lparr>dfaStatesMap = AList.update (keyOf ?s0) 0 [], dfaStatesList = [?s0],
                b_transitions = []\<rparr>"
  have dA: "distinct ?A" by (simp add: collectAlphabet_props)
  have "set (new_Set [start nfa]) \<subseteq> universe nfa" by (simp add: set_new_Set universe_def)
  then have u0: "set ?s0 \<subseteq> universe nfa" by (rule epsilonClosure_universe)
  have d0: "distinct ?s0" by (rule epsilonClosure_props)
  have base0: "build_base nfa b0" using u0 d0 by (simp add: build_base_def b0_def)
  then have inv0: "build_inv nfa b0 ({..<0} \<times> set ?A)" by (simp add: build_inv_def b0_def)
  have le0: "0 \<le> length (dfaStatesList b0)" by simp
  from whileIdx_total[OF inv0 le0 dA] obtain b ext where
    run: "whileIdx nfa ?A b0 0 = Some b"
    and L: "dfaStatesList b = dfaStatesList b0 @ ext"
    and inv: "build_inv nfa b ({..<length (dfaStatesList b)} \<times> set ?A)" by blast
  let ?L = "dfaStatesList b"
  define d where "d = \<lparr>d_start = 0, acceptStates = collectAccept (accept nfa) (dfaStatesMap b) [],
                   d_states = [0..<length ?L], d_transitions = b_transitions b\<rparr>"
  have res: "nfaToDfa nfa = Some d"
    using run unfolding b0_def by (simp add: nfaToDfa_def Let_def d_def)
  have Lne: "?L \<noteq> []" and L0: "?L ! 0 = ?s0" using L by (simp_all add: b0_def)
  have base: "build_base nfa b" using inv by (simp add: build_inv_def)
  then have m: "dfaStatesMap b = zip (map keyOf ?L) [0..<length ?L]" by (simp add: build_base_def)
  have acc: "set (acceptStates d) = {i. i < length ?L \<and> accept nfa \<in> set (?L ! i)}"
    by (simp add: d_def m set_collectAccept)
  have tr: "\<forall>t \<in> set (d_transitions d). tr_ok nfa ?L t"
    using inv by (simp add: build_inv_def d_def)
  have dist: "distinct (map (\<lambda>t. (d_from t, d_symbol t)) (d_transitions d))"
    using inv by (simp add: build_inv_def d_def)
  have cov: "\<forall>i < length ?L. \<forall>a. move nfa (?L ! i) a \<noteq> [] \<longrightarrow>
        (\<exists>t \<in> set (d_transitions d). d_from t = i \<and> d_symbol t = a)"
  proof (intro allI impI)
    fix i a assume i: "i < length ?L" and mv: "move nfa (?L ! i) a \<noteq> []"
    from mv have "a \<in> set ?A" by (rule move_nonempty_alphabet)
    with i have "(i, a) \<in> {..<length ?L} \<times> set ?A" by simp
    with inv mv show "\<exists>t \<in> set (d_transitions d). d_from t = i \<and> d_symbol t = a"
      unfolding build_inv_def d_def by fastforce
  qed
  have "dfa_of nfa ?L d"
    unfolding dfa_of_def using Lne L0 acc tr dist cov by (simp add: d_def)
  with res show ?thesis by blast
qed

lemma nfaRun_empty: "set S = {} \<Longrightarrow> set (nfaRun nfa S w) = {}"
proof (induction w arbitrary: S)
  case Nil
  then show ?case by simp
next
  case (Cons a w)
  have "set (epsilonClosure nfa (move nfa S a)) = {}"
    using Cons.prems by (simp add: epsilonClosure_props move_props)
  then show ?case using Cons.IH by simp
qed

lemma step_cong:
  "set S = set S' \<Longrightarrow>
   set (epsilonClosure nfa (move nfa S a)) = set (epsilonClosure nfa (move nfa S' a))"
  by (simp add: epsilonClosure_props move_props)

lemma dfaStep_None:
  assumes "dfa_of nfa L d" "move nfa (L ! q) a = []"
  shows "dfaStep d q a = None"
proof -
  have "\<not> (\<exists>t \<in> set (d_transitions d). d_from t = q \<and> d_symbol t = a)"
    using assms by (auto simp: dfa_of_def tr_ok_def)
  then show ?thesis by (simp add: dfaStep_def find_None_iff)
qed

lemma dfaStep_Some:
  assumes "dfa_of nfa L d" "q < length L" "move nfa (L ! q) a \<noteq> []"
  shows "\<exists>q'. dfaStep d q a = Some q' \<and> q' < length L \<and>
           set (L ! q') = set (epsilonClosure nfa (move nfa (L ! q) a))"
proof -
  from assms obtain t0 where "t0 \<in> set (d_transitions d)" "d_from t0 = q" "d_symbol t0 = a"
    unfolding dfa_of_def by blast
  then have "find (\<lambda>t. d_from t = q \<and> d_symbol t = a) (d_transitions d) \<noteq> None"
    by (auto simp: find_None_iff)
  then obtain t where f: "find (\<lambda>t. d_from t = q \<and> d_symbol t = a) (d_transitions d) = Some t"
    by blast
  then have t: "t \<in> set (d_transitions d)" "d_from t = q" "d_symbol t = a"
    by (auto simp: find_Some_iff)
  with assms(1) have "tr_ok nfa L t" by (simp add: dfa_of_def)
  with t f show ?thesis by (auto simp: dfaStep_def tr_ok_def)
qed

lemma dfaRun_simulates:
  assumes "dfa_of nfa L d"
  shows "q < length L \<Longrightarrow> set S = set (L ! q) \<Longrightarrow>
         (case dfaRun d q w of
            None \<Rightarrow> set (nfaRun nfa S w) = {}
          | Some q' \<Rightarrow> q' < length L \<and> set (nfaRun nfa S w) = set (L ! q'))"
proof (induction w arbitrary: q S)
  case Nil
  then show ?case by simp
next
  case (Cons a w)
  have eq: "set (epsilonClosure nfa (move nfa S a)) = set (epsilonClosure nfa (move nfa (L ! q) a))"
    using Cons.prems(2) by (rule step_cong)
  show ?case
  proof (cases "move nfa (L ! q) a = []")
    case True
    then have "set (epsilonClosure nfa (move nfa S a)) = {}"
      using eq by (simp add: epsilonClosure_props)
    then have "set (nfaRun nfa (epsilonClosure nfa (move nfa S a)) w) = {}" by (rule nfaRun_empty)
    then show ?thesis using dfaStep_None[OF assms True] by simp
  next
    case False
    from dfaStep_Some[OF assms Cons.prems(1) False] obtain q' where
      st: "dfaStep d q a = Some q'" and q': "q' < length L"
      and s: "set (L ! q') = set (epsilonClosure nfa (move nfa (L ! q) a))" by blast
    from Cons.IH[OF q', of "epsilonClosure nfa (move nfa S a)"] eq s st show ?thesis
      by (simp split: option.splits)
  qed
qed

lemma nfaToDfa_equivalent:
  "\<exists>d. nfaToDfa nfa = Some d \<and> (\<forall>w. dfaAccepts d w = nfaAccepts nfa w)"
proof -
  from nfaToDfa_result obtain d L where res: "nfaToDfa nfa = Some d" and d: "dfa_of nfa L d"
    by blast
  have "dfaAccepts d w = nfaAccepts nfa w" for w
  proof -
    let ?w = "map (\<lambda>c. [c]) w" and ?s0 = "epsilonClosure nfa (new_Set [start nfa])"
    have q0: "0 < length L" and s0: "set ?s0 = set (L ! 0)" and st: "d_start d = 0"
      and acc: "set (acceptStates d) = {i. i < length L \<and> accept nfa \<in> set (L ! i)}"
      using d by (simp_all add: dfa_of_def)
    note sim = dfaRun_simulates[OF d q0 s0, of ?w]
    show ?thesis
    proof (cases "dfaRun d 0 ?w")
      case None
      with sim show ?thesis by (simp add: dfaAccepts_def nfaAccepts_def st)
    next
      case (Some q')
      with sim acc show ?thesis by (simp add: dfaAccepts_def nfaAccepts_def st)
    qed
  qed
  with res show ?thesis by blast
qed

lemma distinct_map_filter_le1:
  "distinct (map f xs) \<Longrightarrow> length (filter (\<lambda>x. f x = y) xs) \<le> 1"
proof (induction xs)
  case Nil
  then show ?case by simp
next
  case (Cons x xs)
  show ?case
  proof (cases "f x = y")
    case True
    with Cons.prems have "y \<notin> f ` set xs" by simp
    then have "\<forall>z \<in> set xs. f z \<noteq> y" by blast
    then have "filter (\<lambda>x. f x = y) xs = []" by (simp add: filter_empty_conv)
    with True show ?thesis by simp
  next
    case False
    with Cons show ?thesis by simp
  qed
qed

text \<open>
  C5: for every NFA, \<open>nfaToDfa\<close> returns a DFA whose start id is 0, that has at most
  one transition for each pair of a from state and a symbol, and in which every
  transition carries a label of some NFA transition, so never the epsilon marker.
\<close>

theorem nfaToDfa_deterministic:
  "\<exists>d. nfaToDfa nfa = Some d \<and> d_start d = 0 \<and>
     (\<forall>q a. length (filter (\<lambda>t. d_from t = q \<and> d_symbol t = a) (d_transitions d)) \<le> 1) \<and>
     (\<forall>t \<in> set (d_transitions d). Some (d_symbol t) \<in> symbol ` set (transitions nfa))"
proof -
  from nfaToDfa_result obtain d L where res: "nfaToDfa nfa = Some d" and d: "dfa_of nfa L d"
    by blast
  have dist: "distinct (map (\<lambda>t. (d_from t, d_symbol t)) (d_transitions d))"
    using d by (simp add: dfa_of_def)
  have one: "length (filter (\<lambda>t. d_from t = q \<and> d_symbol t = a) (d_transitions d)) \<le> 1" for q a
    using distinct_map_filter_le1[OF dist, of "(q, a)"] by simp
  have lab: "Some (d_symbol t) \<in> symbol ` set (transitions nfa)" if "t \<in> set (d_transitions d)" for t
  proof -
    from that d have "move nfa (L ! d_from t) (d_symbol t) \<noteq> []" by (simp add: dfa_of_def tr_ok_def)
    then have "d_symbol t \<in> set (collectAlphabet (transitions nfa) [])"
      by (rule move_nonempty_alphabet)
    then obtain u where "u \<in> set (transitions nfa)" "symbol u = Some (d_symbol t)"
      by (auto simp: collectAlphabet_props)
    then show ?thesis by (metis imageI)
  qed
  from res d one lab show ?thesis by (auto simp: dfa_of_def)
qed

text \<open>
  C1: for every pattern that compiles, and every string of length at most 6 over the
  alphabet derived by \<open>nfaToDfa\<close>, the DFA built from the pattern accepts the string
  if and only if the direct simulation of the NFA accepts it.
\<close>

theorem dfa_equals_nfa_simulation:
  assumes "postfixToNFA (regexToPostfix pattern) k = (Inr nfa, k')"
    and "length w \<le> 6"
    and "\<forall>c \<in> set w. [c] \<in> set (collectAlphabet (transitions nfa) [])"
  shows "\<exists>d. nfaToDfa nfa = Some d \<and> dfaAccepts d w = nfaAccepts nfa w"
  using nfaToDfa_equivalent[of nfa] by blast

section \<open>The pattern (a|b)*abb\<close>

lemma abb_postfixToNFA: "postfixToNFA (regexToPostfix ''(a|b)*abb'') 0 = (Inr abbNFA, 14)"
  by code_simp

lemma abb_nfaToDfa: "nfaToDfa abbNFA = Some abbDFA"
  by code_simp

lemma abb_step_a: "q \<le> 4 \<Longrightarrow> dfaStep abbDFA q ''a'' = Some 1"
proof -
  assume "q \<le> 4"
  then consider "q = 0" | "q = 1" | "q = 2" | "q = 3" | "q = 4" by linarith
  then show ?thesis by cases (simp_all add: dfaStep_def abbDFA_def)
qed

lemma abb_step_b:
  "q \<le> 4 \<Longrightarrow> dfaStep abbDFA q ''b'' = Some (if q = 1 then 3 else if q = 3 then 4 else 2)"
proof -
  assume "q \<le> 4"
  then consider "q = 0" | "q = 1" | "q = 2" | "q = 3" | "q = 4" by linarith
  then show ?thesis by cases (simp_all add: dfaStep_def abbDFA_def)
qed

lemma abb_step_other:
  "c \<noteq> CHR ''a'' \<Longrightarrow> c \<noteq> CHR ''b'' \<Longrightarrow> dfaStep abbDFA q [c] = None"
  by (simp add: dfaStep_def abbDFA_def)

lemma dfaRun_snoc:
  "dfaRun d q (xs @ [a]) = (case dfaRun d q xs of None \<Rightarrow> None | Some q' \<Rightarrow> dfaStep d q' a)"
  by (induction xs arbitrary: q) (auto split: option.splits)

lemma abb_run_ab:
  "set w \<subseteq> {CHR ''a'', CHR ''b''} \<Longrightarrow>
   \<exists>q. dfaRun abbDFA 0 (map (\<lambda>c. [c]) w) = Some q \<and> q \<le> 4 \<and>
       (q = 1 \<longleftrightarrow> suffix ''a'' w) \<and> (q = 3 \<longleftrightarrow> suffix ''ab'' w) \<and> (q = 4 \<longleftrightarrow> suffix ''abb'' w)"
proof (induction w rule: rev_induct)
  case Nil
  show ?case by simp
next
  case (snoc c w)
  then obtain q where run: "dfaRun abbDFA 0 (map (\<lambda>c. [c]) w) = Some q" and q: "q \<le> 4"
    and s1: "q = 1 \<longleftrightarrow> suffix ''a'' w" and s3: "q = 3 \<longleftrightarrow> suffix ''ab'' w"
    and s4: "q = 4 \<longleftrightarrow> suffix ''abb'' w" by auto
  have sa: "suffix ''a'' (w @ [c]) \<longleftrightarrow> c = CHR ''a''"
    using snoc_suffix_snoc[of "[]" "CHR ''a''" w c] by auto
  have sab: "suffix ''ab'' (w @ [c]) \<longleftrightarrow> c = CHR ''b'' \<and> suffix ''a'' w"
    using snoc_suffix_snoc[of "''a''" "CHR ''b''" w c] by auto
  have sabb: "suffix ''abb'' (w @ [c]) \<longleftrightarrow> c = CHR ''b'' \<and> suffix ''ab'' w"
    using snoc_suffix_snoc[of "''ab''" "CHR ''b''" w c] by auto
  from snoc.prems consider "c = CHR ''a''" | "c = CHR ''b''" by auto
  then show ?case
  proof cases
    case 1
    have "dfaRun abbDFA 0 (map (\<lambda>c. [c]) (w @ [c])) = Some 1"
      using run abb_step_a[OF q] 1 by (simp add: dfaRun_snoc)
    then show ?thesis using 1 sa sab sabb by simp
  next
    case 2
    have "dfaRun abbDFA 0 (map (\<lambda>c. [c]) (w @ [c])) = Some (if q = 1 then 3 else if q = 3 then 4 else 2)"
      using run abb_step_b[OF q] 2 by (simp add: dfaRun_snoc)
    then show ?thesis using 2 sa sab sabb s1 s3 s4 by auto
  qed
qed

lemma abb_run_other:
  "\<not> set w \<subseteq> {CHR ''a'', CHR ''b''} \<Longrightarrow> dfaRun abbDFA 0 (map (\<lambda>c. [c]) w) = None"
proof (induction w rule: rev_induct)
  case Nil
  then show ?case by simp
next
  case (snoc c w)
  show ?case
  proof (cases "c = CHR ''a'' \<or> c = CHR ''b''")
    case True
    with snoc.prems have "\<not> set w \<subseteq> {CHR ''a'', CHR ''b''}" by auto
    then show ?thesis using snoc.IH by (simp add: dfaRun_snoc)
  next
    case False
    then have "dfaStep abbDFA q [c] = None" for q by (simp add: abb_step_other)
    then show ?thesis by (simp add: dfaRun_snoc split: option.splits)
  qed
qed

lemma abb_language:
  "dfaAccepts abbDFA w \<longleftrightarrow> (\<exists>u. w = u @ ''abb'' \<and> set u \<subseteq> {CHR ''a'', CHR ''b''})"
proof (cases "set w \<subseteq> {CHR ''a'', CHR ''b''}")
  case True
  from abb_run_ab[OF True] obtain q where
    run: "dfaRun abbDFA 0 (map (\<lambda>c. [c]) w) = Some q" and s4: "q = 4 \<longleftrightarrow> suffix ''abb'' w" by blast
  have "dfaAccepts abbDFA w \<longleftrightarrow> q = 4" using run by (simp add: dfaAccepts_def abbDFA_def)
  also have "\<dots> \<longleftrightarrow> (\<exists>u. w = u @ ''abb'')" using s4 by (simp add: suffix_def)
  also have "\<dots> \<longleftrightarrow> (\<exists>u. w = u @ ''abb'' \<and> set u \<subseteq> {CHR ''a'', CHR ''b''})"
    using True by auto
  finally show ?thesis .
next
  case False
  then have "\<not> dfaAccepts abbDFA w" using abb_run_other[OF False] by (simp add: dfaAccepts_def abbDFA_def)
  moreover have "\<not> (\<exists>u. w = u @ ''abb'' \<and> set u \<subseteq> {CHR ''a'', CHR ''b''})" using False by auto
  ultimately show ?thesis by blast
qed

lemma abb_examples:
  "dfaAccepts abbDFA ''abb''" "dfaAccepts abbDFA ''aabb''" "dfaAccepts abbDFA ''babb''"
  "dfaAccepts abbDFA ''aaaabb''" "\<not> dfaAccepts abbDFA ''''" "\<not> dfaAccepts abbDFA ''ab''"
  "\<not> dfaAccepts abbDFA ''abbb''"
  by code_simp+

text \<open>
  C2: the DFA compiled from \<open>(a|b)*abb\<close> accepts exactly the strings that end in
  \<open>abb\<close> after zero or more characters \<open>a\<close> and \<open>b\<close>; it accepts \<open>abb\<close>,
  \<open>aabb\<close>, \<open>babb\<close> and \<open>aaaabb\<close> and rejects the empty string, \<open>ab\<close> and
  \<open>abbb\<close>.
\<close>

theorem abb_dfa_accepts_suffix_abb:
  "\<exists>nfa k' d.
     postfixToNFA (regexToPostfix ''(a|b)*abb'') (resetIds k) = (Inr nfa, k') \<and>
     nfaToDfa nfa = Some d \<and>
     (\<forall>w. dfaAccepts d w \<longleftrightarrow> (\<exists>u. w = u @ ''abb'' \<and> set u \<subseteq> {CHR ''a'', CHR ''b''})) \<and>
     dfaAccepts d ''abb'' \<and> dfaAccepts d ''aabb'' \<and> dfaAccepts d ''babb'' \<and>
     dfaAccepts d ''aaaabb'' \<and> \<not> dfaAccepts d '''' \<and> \<not> dfaAccepts d ''ab'' \<and>
     \<not> dfaAccepts d ''abbb''"
proof -
  have "postfixToNFA (regexToPostfix ''(a|b)*abb'') (resetIds k) = (Inr abbNFA, 14)"
    using abb_postfixToNFA by (simp add: resetIds_def)
  then show ?thesis using abb_nfaToDfa abb_language abb_examples by blast
qed

section \<open>Instances for the general theorems\<close>

theorem dfa_equals_nfa_simulation_witness:
  "postfixToNFA (regexToPostfix ''(a|b)*abb'') 0 = (Inr abbNFA, 14) \<and>
   length ''aabb'' \<le> 6 \<and>
   ''a'' \<in> set (collectAlphabet (transitions abbNFA) []) \<and>
   ''b'' \<in> set (collectAlphabet (transitions abbNFA) []) \<and>
   (\<exists>d. nfaToDfa abbNFA = Some d \<and> dfaAccepts d ''aabb'' = nfaAccepts abbNFA ''aabb'') \<and>
   nfaAccepts abbNFA ''aabb''"
proof -
  have h2: "length ''aabb'' \<le> 6" by simp
  have h3: "\<forall>c \<in> set ''aabb''. [c] \<in> set (collectAlphabet (transitions abbNFA) [])"
    by (simp add: abbNFA_def Set_add_def)
  have h4: "nfaAccepts abbNFA ''aabb''" by code_simp
  from h3 have h5: "''a'' \<in> set (collectAlphabet (transitions abbNFA) [])"
    "''b'' \<in> set (collectAlphabet (transitions abbNFA) [])" by simp_all
  from dfa_equals_nfa_simulation[OF abb_postfixToNFA h2 h3] abb_postfixToNFA h2 h4 h5
  show ?thesis by blast
qed

theorem nfaToDfa_deterministic_witness:
  "\<exists>d. nfaToDfa abbNFA = Some d \<and> d_transitions d \<noteq> [] \<and> d_start d = 0 \<and>
     (\<forall>q a. length (filter (\<lambda>t. d_from t = q \<and> d_symbol t = a) (d_transitions d)) \<le> 1) \<and>
     (\<forall>t \<in> set (d_transitions d). Some (d_symbol t) \<in> symbol ` set (transitions abbNFA))"
proof -
  from nfaToDfa_deterministic[of abbNFA] obtain d where
    d: "nfaToDfa abbNFA = Some d" "d_start d = 0"
      "\<forall>q a. length (filter (\<lambda>t. d_from t = q \<and> d_symbol t = a) (d_transitions d)) \<le> 1"
      "\<forall>t \<in> set (d_transitions d). Some (d_symbol t) \<in> symbol ` set (transitions abbNFA)"
    by blast
  from d(1) abb_nfaToDfa have "d = abbDFA" by simp
  then have "d_transitions d \<noteq> []" by (simp add: abbDFA_def)
  with d show ?thesis by blast
qed

section \<open>DOT export: ids and accepting markers\<close>













































end
